theory Spec2Isabelle
  imports Main "HOL-Library.Word"
begin

section \<open>Memory, element lifetime and failure\<close>

text \<open>
  The class \<^verbatim>\<open>circular_buffer<T>\<close> of \<^verbatim>\<open>circular-buffer.h\<close> owns a raw block obtained
  from \<^verbatim>\<open>operator new\<close> and constructs and destroys elements in it by hand. The model
  keeps the blocks in an explicit store. A block is a list of slots; a slot is \<open>None\<close>
  while it holds no constructed \<open>T\<close> and \<open>Some v\<close> while it holds the value \<open>v\<close>.

  \<^item> \<^verbatim>\<open>std::size_t\<close> and \<^verbatim>\<open>std::ptrdiff_t\<close> are 64-bit words; \<open>+\<close>, \<open>-\<close> and \<open>*\<close> wrap
    around, as the conversions between the two types in the source do. Signed comparisons
    are \<open>word_sless\<close>.
  \<^item> A pointer to a block is a natural number, \<open>0\<close> being \<^verbatim>\<open>nullptr\<close>.
  \<^item> Block sizes are counted in slots: the byte count \<^verbatim>\<open>sizeof(T) * capacity\<close> handed to
    \<^verbatim>\<open>operator new\<close> is not part of the model. The allocator refuses every request above
    \<open>max_block\<close> slots (no object is larger than \<^verbatim>\<open>PTRDIFF_MAX\<close> bytes).
  \<^item> The two sources of failure, \<^verbatim>\<open>operator new\<close> and the copy constructor of \<open>T\<close>,
    consume one entry of a schedule \<open>faults\<close> per call and throw when the entry is
    \<open>True\<close>; an exhausted schedule means no further failure. Destructors and the swap
    of two elements do not throw.
  \<^item> Every allocation, release, construction and destruction is appended to \<open>trace\<close>.
  \<^item> What C++ leaves undefined (a read of a slot that holds no element, an access outside
    a block, a modulo by zero, the release of a block that is not allocated) is the
    outcome \<open>Undefined\<close>.
\<close>

type_synonym size_t = "64 word"
type_synonym ptrdiff_t = "64 word"
type_synonym pointer = nat
type_synonym ref = "pointer \<times> nat"

definition nullptr :: pointer where
  "nullptr = 0"

datatype exn = bad_alloc | copy_failure

datatype 'a event =
    Allocated pointer nat
  | Released pointer
  | Constructed pointer nat 'a
  | Destroyed pointer nat 'a

record 'a world =
  blocks :: "pointer \<rightharpoonup> 'a option list"
  brk :: pointer
  faults :: "bool list"
  trace :: "'a event list"

datatype ('r, 's) outcome = Returns 'r 's | Throws exn 's | Undefined

definition max_block :: nat where
  "max_block = 2 ^ 63 - 1"

definition next_fault :: "'a world \<Rightarrow> bool" where
  "next_fault w = (case faults w of [] \<Rightarrow> False | f # _ \<Rightarrow> f)"

definition consume :: "'a world \<Rightarrow> 'a world" where
  "consume w = w\<lparr>faults := tl (faults w)\<rparr>"

definition log :: "'a event \<Rightarrow> 'a world \<Rightarrow> 'a world" where
  "log e w = w\<lparr>trace := trace w @ [e]\<rparr>"

text \<open>\<^verbatim>\<open>static_cast<T*>(operator new(sizeof(T) * n))\<close>: a fresh block of \<open>n\<close> empty slots.\<close>

definition operator_new :: "size_t \<Rightarrow> 'a world \<Rightarrow> (pointer, 'a world) outcome" where
  "operator_new n w =
     (if next_fault w \<or> max_block < unat n then Throws bad_alloc (consume w)
      else let p = brk w + 1
           in Returns p (log (Allocated p (unat n))
                ((consume w)\<lparr>blocks := (blocks w)(p \<mapsto> replicate (unat n) None), brk := p\<rparr>)))"

text \<open>\<^verbatim>\<open>operator delete(p)\<close>: nothing for \<^verbatim>\<open>nullptr\<close>.\<close>

definition operator_delete :: "pointer \<Rightarrow> 'a world \<Rightarrow> (unit, 'a world) outcome" where
  "operator_delete p w =
     (if p = nullptr then Returns () w
      else case blocks w p of
             None \<Rightarrow> Undefined
           | Some blk \<Rightarrow> Returns () (log (Released p) (w\<lparr>blocks := (blocks w)(p := None)\<rparr>)))"

text \<open>The element a reference designates, if there is one.\<close>

definition load :: "ref \<Rightarrow> 'a world \<Rightarrow> 'a option" where
  "load r w =
     (case blocks w (fst r) of
        None \<Rightarrow> None
      | Some blk \<Rightarrow> if snd r < length blk then blk ! snd r else None)"

definition store :: "ref \<Rightarrow> 'a option \<Rightarrow> 'a world \<Rightarrow> 'a world" where
  "store r x w =
     (case blocks w (fst r) of
        None \<Rightarrow> w
      | Some blk \<Rightarrow> w\<lparr>blocks := (blocks w)(fst r \<mapsto> blk[snd r := x])\<rparr>)"

definition in_block :: "ref \<Rightarrow> 'a world \<Rightarrow> bool" where
  "in_block r w = (case blocks w (fst r) of None \<Rightarrow> False | Some blk \<Rightarrow> snd r < length blk)"

text \<open>\<^verbatim>\<open>new (r) T(val)\<close>: the copy constructor may throw, and then the slot is untouched.\<close>

definition placement_new :: "ref \<Rightarrow> 'a \<Rightarrow> 'a world \<Rightarrow> (unit, 'a world) outcome" where
  "placement_new r v w =
     (if \<not> in_block r w then Undefined
      else if next_fault w then Throws copy_failure (consume w)
      else Returns () (log (Constructed (fst r) (snd r) v) (store r (Some v) (consume w))))"

text \<open>\<^verbatim>\<open>r->~T()\<close>.\<close>

definition destroy :: "ref \<Rightarrow> 'a world \<Rightarrow> (unit, 'a world) outcome" where
  "destroy r w =
     (case load r w of
        None \<Rightarrow> Undefined
      | Some v \<Rightarrow> Returns () (log (Destroyed (fst r) (snd r) v) (store r None w)))"

text \<open>\<^verbatim>\<open>std::swap(a, b)\<close> on two elements.\<close>

definition std_swap :: "ref \<Rightarrow> ref \<Rightarrow> 'a world \<Rightarrow> (unit, 'a world) outcome" where
  "std_swap a b w =
     (case (load a w, load b w) of
        (Some x, Some y) \<Rightarrow> Returns () (store b (Some x) (store a (Some y) w))
      | _ \<Rightarrow> Undefined)"

text \<open>\<^verbatim>\<open>p + (i % n)\<close>, the address of \<^verbatim>\<open>p[i % n]\<close>.\<close>

definition slot :: "pointer \<Rightarrow> size_t \<Rightarrow> size_t \<Rightarrow> ref option" where
  "slot p i n = (if n = 0 then None else Some (p, unat (i mod n)))"

section \<open>The iterator\<close>

record template_iterator =
  it_data :: pointer
  it_pos :: size_t
  it_size :: size_t

definition it_deref :: "template_iterator \<Rightarrow> ref option" where
  "it_deref it = slot (it_data it) (it_pos it) (it_size it)"

definition it_inc :: "template_iterator \<Rightarrow> template_iterator" where
  "it_inc it = it\<lparr>it_pos := it_pos it + 1\<rparr>"

definition it_dec :: "template_iterator \<Rightarrow> template_iterator" where
  "it_dec it = it\<lparr>it_pos := it_pos it - 1\<rparr>"

definition it_eq :: "template_iterator \<Rightarrow> template_iterator \<Rightarrow> bool" where
  "it_eq left right = (it_data left = it_data right \<and> it_pos left = it_pos right)"

definition it_plus :: "template_iterator \<Rightarrow> ptrdiff_t \<Rightarrow> template_iterator" where
  "it_plus a n = \<lparr>it_data = it_data a, it_pos = it_pos a + n, it_size = it_size a\<rparr>"

definition it_minus :: "template_iterator \<Rightarrow> ptrdiff_t \<Rightarrow> template_iterator" where
  "it_minus a n = \<lparr>it_data = it_data a, it_pos = it_pos a - n, it_size = it_size a\<rparr>"

definition it_diff :: "template_iterator \<Rightarrow> template_iterator \<Rightarrow> ptrdiff_t" where
  "it_diff b a = it_pos b - it_pos a"

definition it_less :: "template_iterator \<Rightarrow> template_iterator \<Rightarrow> bool" where
  "it_less a b = (it_data a = it_data b \<and> word_sless 0 (it_diff b a))"

definition it_greater :: "template_iterator \<Rightarrow> template_iterator \<Rightarrow> bool" where
  "it_greater a b = it_less b a"

text \<open>\<^verbatim>\<open>std::iter_swap(a, b)\<close> is \<^verbatim>\<open>swap(*a, *b)\<close>.\<close>

definition iter_swap :: "template_iterator \<Rightarrow> template_iterator \<Rightarrow> 'a world \<Rightarrow> (unit, 'a world) outcome" where
  "iter_swap a b w =
     (case (it_deref a, it_deref b) of
        (Some ra, Some rb) \<Rightarrow> std_swap ra rb w
      | _ \<Rightarrow> Undefined)"

text \<open>
  \<^verbatim>\<open>std::uninitialized_copy(first, last, d_first)\<close>: copy-constructs the elements of
  \<open>[first, last)\<close> into the raw slots from \<open>d_first\<close> on. When a copy throws, the elements
  constructed so far are destroyed, first to last, and the exception is rethrown. The
  range has to be one of a single block.
\<close>

function uninitialized_copy_loop ::
  "template_iterator \<Rightarrow> template_iterator \<Rightarrow> template_iterator \<Rightarrow> 'a world
     \<Rightarrow> (unit, template_iterator \<times> 'a world) outcome" where
  "uninitialized_copy_loop first lst cur w =
     (if it_data first \<noteq> it_data lst then Undefined
      else if it_pos first = it_pos lst then Returns () (cur, w)
      else case (it_deref first, it_deref cur) of
             (Some src, Some dst) \<Rightarrow>
               (case load src w of
                  None \<Rightarrow> Undefined
                | Some v \<Rightarrow>
                    (case placement_new dst v w of
                       Returns _ w' \<Rightarrow> uninitialized_copy_loop (it_inc first) lst (it_inc cur) w'
                     | Throws e w' \<Rightarrow> Throws e (cur, w')
                     | Undefined \<Rightarrow> Undefined))
           | _ \<Rightarrow> Undefined)"
  by pat_completeness auto
termination
proof (relation "measure (\<lambda>(first, lst, cur, w). unat (it_pos lst - it_pos first))")
  show "wf (measure (\<lambda>(first, lst, cur, w :: 'a world). unat (it_pos lst - it_pos first)))"
    by simp
next
  fix first lst cur :: template_iterator and w w' :: "'a world"
  assume "it_pos first \<noteq> it_pos lst"
  then have "it_pos lst - it_pos first \<noteq> 0" by simp
  then have "unat (it_pos lst - it_pos first - 1) < unat (it_pos lst - it_pos first)"
    by (simp add: unat_minus_one unat_gt_0)
  then have "unat (it_pos lst - (it_pos first + 1)) < unat (it_pos lst - it_pos first)"
    by (simp only: diff_diff_eq)
  then show "((it_inc first, lst, it_inc cur, w'), (first, lst, cur, w))
      \<in> measure (\<lambda>(first, lst, cur, w). unat (it_pos lst - it_pos first))"
    by (simp add: it_inc_def)
qed

declare uninitialized_copy_loop.simps [simp del]

function destroy_range ::
  "template_iterator \<Rightarrow> template_iterator \<Rightarrow> 'a world \<Rightarrow> (unit, 'a world) outcome" where
  "destroy_range first lst w =
     (if it_data first \<noteq> it_data lst then Undefined
      else if it_pos first = it_pos lst then Returns () w
      else case it_deref first of
             None \<Rightarrow> Undefined
           | Some r \<Rightarrow>
               (case destroy r w of
                  Returns _ w' \<Rightarrow> destroy_range (it_inc first) lst w'
                | _ \<Rightarrow> Undefined))"
  by pat_completeness auto
termination
proof (relation "measure (\<lambda>(first, lst, w). unat (it_pos lst - it_pos first))")
  show "wf (measure (\<lambda>(first, lst, w :: 'a world). unat (it_pos lst - it_pos first)))"
    by simp
next
  fix first lst :: template_iterator and w w' :: "'a world"
  assume "it_pos first \<noteq> it_pos lst"
  then have "it_pos lst - it_pos first \<noteq> 0" by simp
  then have "unat (it_pos lst - it_pos first - 1) < unat (it_pos lst - it_pos first)"
    by (simp add: unat_minus_one unat_gt_0)
  then have "unat (it_pos lst - (it_pos first + 1)) < unat (it_pos lst - it_pos first)"
    by (simp only: diff_diff_eq)
  then show "((it_inc first, lst, w'), (first, lst, w))
      \<in> measure (\<lambda>(first, lst, w). unat (it_pos lst - it_pos first))"
    by (simp add: it_inc_def)
qed

declare destroy_range.simps [simp del]

definition uninitialized_copy ::
  "template_iterator \<Rightarrow> template_iterator \<Rightarrow> template_iterator \<Rightarrow> 'a world
     \<Rightarrow> (template_iterator, 'a world) outcome" where
  "uninitialized_copy first lst d_first w =
     (case uninitialized_copy_loop first lst d_first w of
        Returns _ (cur, w') \<Rightarrow> Returns cur w'
      | Throws e (cur, w') \<Rightarrow>
          (case destroy_range d_first cur w' of
             Returns _ w'' \<Rightarrow> Throws e w''
           | _ \<Rightarrow> Undefined)
      | Undefined \<Rightarrow> Undefined)"

section \<open>The class\<close>

text \<open>
  The four data members. The names \<^verbatim>\<open>data_\<close>, \<^verbatim>\<open>size_\<close>, \<^verbatim>\<open>capacity_\<close> and
  \<^verbatim>\<open>begin_\<close> of the source carry the suffix \<open>m\<close> here. A member function takes the
  object it is called on (the last but one argument) and the world, and gives both back.
\<close>

record circular_buffer =
  data_m :: pointer
  size_m :: size_t
  capacity_m :: size_t
  begin_m :: size_t

definition size_cb :: "circular_buffer \<Rightarrow> size_t" where
  "size_cb this = size_m this"

definition empty_cb :: "circular_buffer \<Rightarrow> bool" where
  "empty_cb this = (size_cb this = 0)"

definition capacity :: "circular_buffer \<Rightarrow> size_t" where
  "capacity this = capacity_m this"

definition begin_cb :: "circular_buffer \<Rightarrow> template_iterator" where
  "begin_cb this = \<lparr>it_data = data_m this, it_pos = begin_m this, it_size = capacity this\<rparr>"

definition end_cb :: "circular_buffer \<Rightarrow> template_iterator" where
  "end_cb this = it_plus (begin_cb this) (size_cb this)"

text \<open>\<^verbatim>\<open>circular_buffer() noexcept = default\<close>.\<close>

definition default_ctor :: circular_buffer where
  "default_ctor = \<lparr>data_m = nullptr, size_m = 0, capacity_m = 0, begin_m = 0\<rparr>"

text \<open>The private \<^verbatim>\<open>explicit circular_buffer(std::size_t capacity)\<close>.\<close>

definition ctor :: "size_t \<Rightarrow> 'a world \<Rightarrow> (circular_buffer, 'a world) outcome" where
  "ctor n w =
     (if n = 0 then Returns \<lparr>data_m = nullptr, size_m = 0, capacity_m = n, begin_m = 0\<rparr> w
      else case operator_new n w of
             Returns p w' \<Rightarrow> Returns \<lparr>data_m = p, size_m = 0, capacity_m = n, begin_m = 0\<rparr> w'
           | Throws e w' \<Rightarrow> Throws e w'
           | Undefined \<Rightarrow> Undefined)"

text \<open>\<^verbatim>\<open>operator[]\<close>, \<^verbatim>\<open>back()\<close> and \<^verbatim>\<open>front()\<close> as the reference they return.\<close>

definition subscript :: "size_t \<Rightarrow> circular_buffer \<Rightarrow> ref option" where
  "subscript index this = slot (data_m this) (begin_m this + index) (capacity this)"

definition back_cb :: "circular_buffer \<Rightarrow> ref option" where
  "back_cb this = slot (data_m this) (begin_m this + size_cb this - 1) (capacity this)"

definition front_cb :: "circular_buffer \<Rightarrow> ref option" where
  "front_cb this = Some (data_m this, unat (begin_m this))"

definition swap_cb :: "circular_buffer \<Rightarrow> circular_buffer \<Rightarrow> circular_buffer \<times> circular_buffer" where
  "swap_cb left right =
     (left\<lparr>data_m := data_m right, size_m := size_m right,
            capacity_m := capacity_m right, begin_m := begin_m right\<rparr>,
      right\<lparr>data_m := data_m left, size_m := size_m left,
             capacity_m := capacity_m left, begin_m := begin_m left\<rparr>)"

definition pop_back :: "circular_buffer \<Rightarrow> 'a world \<Rightarrow> (unit, circular_buffer \<times> 'a world) outcome" where
  "pop_back this w =
     (case back_cb this of
        None \<Rightarrow> Undefined
      | Some r \<Rightarrow>
          (case destroy r w of
             Returns _ w' \<Rightarrow> Returns () (this\<lparr>size_m := size_m this - 1\<rparr>, w')
           | _ \<Rightarrow> Undefined))"

definition pop_front :: "circular_buffer \<Rightarrow> 'a world \<Rightarrow> (unit, circular_buffer \<times> 'a world) outcome" where
  "pop_front this w =
     (case front_cb this of
        None \<Rightarrow> Undefined
      | Some r \<Rightarrow>
          (case destroy r w of
             Returns _ w' \<Rightarrow>
               if capacity this = 0 then Undefined
               else Returns () (this\<lparr>begin_m := (begin_m this + 1) mod capacity this,
                                     size_m := size_m this - 1\<rparr>, w')
           | _ \<Rightarrow> Undefined))"

function clear :: "circular_buffer \<Rightarrow> 'a world \<Rightarrow> (unit, circular_buffer \<times> 'a world) outcome" where
  "clear this w =
     (if \<not> empty_cb this then
        (case pop_back this w of
           Returns _ (this', w') \<Rightarrow> clear this' w'
         | Throws e s \<Rightarrow> Throws e s
         | Undefined \<Rightarrow> Undefined)
      else Returns () (this, w))"
  by pat_completeness auto
termination
proof (relation "measure (\<lambda>(this, w). unat (size_m this))")
  show "wf (measure (\<lambda>(this, w :: 'a world). unat (size_m this)))"
    by simp
next
  fix this this' :: circular_buffer and w w' :: "'a world" and x :: unit and s
  assume ne: "\<not> empty_cb this" and pop: "pop_back this w = Returns x s" and s: "(this', w') = s"
  from pop s have "size_m this' = size_m this - 1"
    by (auto simp: pop_back_def split: option.splits outcome.splits)
  moreover from ne have "unat (size_m this - 1) < unat (size_m this)"
    by (simp add: empty_cb_def size_cb_def unat_minus_one unat_gt_0)
  ultimately show "((this', w'), (this, w)) \<in> measure (\<lambda>(this, w). unat (size_m this))"
    by simp
qed

declare clear.simps [simp del]

text \<open>\<^verbatim>\<open>~circular_buffer()\<close>.\<close>

definition dtor :: "circular_buffer \<Rightarrow> 'a world \<Rightarrow> (unit, 'a world) outcome" where
  "dtor this w =
     (case clear this w of
        Returns _ (this', w') \<Rightarrow> operator_delete (data_m this') w'
      | _ \<Rightarrow> Undefined)"

text \<open>
  An exception that leaves a scope with the local object \<open>tmp\<close> in it: \<open>tmp\<close> is destroyed
  and the exception goes on to the caller, whose object is \<open>this\<close>.
\<close>

definition unwind ::
  "exn \<Rightarrow> circular_buffer \<Rightarrow> circular_buffer \<Rightarrow> 'a world \<Rightarrow> ('r, circular_buffer \<times> 'a world) outcome" where
  "unwind e tmp this w =
     (case dtor tmp w of
        Returns _ w' \<Rightarrow> Throws e (this, w')
      | _ \<Rightarrow> Undefined)"

definition insert_with_copy ::
  "template_iterator \<Rightarrow> 'a \<Rightarrow> circular_buffer \<Rightarrow> 'a world
     \<Rightarrow> (template_iterator, circular_buffer \<times> 'a world) outcome" where
  "insert_with_copy pos val this w =
     (let idx = it_diff pos (begin_cb this) in
      case ctor (if capacity this = 0 then 1 else capacity this * 2) w of
        Throws e w1 \<Rightarrow> Throws e (this, w1)
      | Undefined \<Rightarrow> Undefined
      | Returns tmp w1 \<Rightarrow>
          (case uninitialized_copy (begin_cb this) (it_plus (begin_cb this) idx) (begin_cb tmp) w1 of
             Throws e w2 \<Rightarrow> unwind e tmp this w2
           | Undefined \<Rightarrow> Undefined
           | Returns _ w2 \<Rightarrow>
               (let tmp = tmp\<lparr>size_m := size_m tmp + idx\<rparr> in
                case slot (data_m tmp) (begin_m tmp + size_cb tmp) (capacity tmp) of
                  None \<Rightarrow> Undefined
                | Some r \<Rightarrow>
                    (case placement_new r val w2 of
                       Throws e w3 \<Rightarrow> unwind e tmp this w3
                     | Undefined \<Rightarrow> Undefined
                     | Returns _ w3 \<Rightarrow>
                         (let tmp = tmp\<lparr>size_m := size_m tmp + 1\<rparr> in
                          case uninitialized_copy (it_plus (begin_cb this) idx) (end_cb this)
                                 (end_cb tmp) w3 of
                            Throws e w4 \<Rightarrow> unwind e tmp this w4
                          | Undefined \<Rightarrow> Undefined
                          | Returns _ w4 \<Rightarrow>
                              (let tmp = tmp\<lparr>size_m := size_cb this + 1\<rparr>;
                                   (this', tmp') = swap_cb this tmp;
                                   result = it_plus (begin_cb this') idx
                               in case dtor tmp' w4 of
                                    Returns _ w5 \<Rightarrow> Returns result (this', w5)
                                  | _ \<Rightarrow> Undefined))))))"

definition push_back :: "'a \<Rightarrow> circular_buffer \<Rightarrow> 'a world \<Rightarrow> (unit, circular_buffer \<times> 'a world) outcome" where
  "push_back val this w =
     (if size_cb this = capacity this then
        (case insert_with_copy (end_cb this) val this w of
           Returns _ s \<Rightarrow> Returns () s
         | Throws e s \<Rightarrow> Throws e s
         | Undefined \<Rightarrow> Undefined)
      else case slot (data_m this) (begin_m this + size_cb this) (capacity this) of
             None \<Rightarrow> Undefined
           | Some r \<Rightarrow>
               (case placement_new r val w of
                  Returns _ w' \<Rightarrow> Returns () (this\<lparr>size_m := size_m this + 1\<rparr>, w')
                | Throws e w' \<Rightarrow> Throws e (this, w')
                | Undefined \<Rightarrow> Undefined))"

definition push_front :: "'a \<Rightarrow> circular_buffer \<Rightarrow> 'a world \<Rightarrow> (unit, circular_buffer \<times> 'a world) outcome" where
  "push_front val this w =
     (if size_cb this = capacity this then
        (case insert_with_copy (begin_cb this) val this w of
           Returns _ s \<Rightarrow> Returns () s
         | Throws e s \<Rightarrow> Throws e s
         | Undefined \<Rightarrow> Undefined)
      else if capacity this = 0 then Undefined
      else let new_begin = (begin_m this + capacity this - 1) mod capacity this in
           case placement_new (data_m this, unat new_begin) val w of
             Returns _ w' \<Rightarrow> Returns () (this\<lparr>begin_m := new_begin, size_m := size_m this + 1\<rparr>, w')
           | Throws e w' \<Rightarrow> Throws e (this, w')
           | Undefined \<Rightarrow> Undefined)"

definition reserve :: "size_t \<Rightarrow> circular_buffer \<Rightarrow> 'a world \<Rightarrow> (unit, circular_buffer \<times> 'a world) outcome" where
  "reserve desired_capacity this w =
     (if capacity this < desired_capacity then
        (case ctor desired_capacity w of
           Throws e w1 \<Rightarrow> Throws e (this, w1)
         | Undefined \<Rightarrow> Undefined
         | Returns tmp w1 \<Rightarrow>
             (case uninitialized_copy (begin_cb this) (end_cb this) (begin_cb tmp) w1 of
                Throws e w2 \<Rightarrow> unwind e tmp this w2
              | Undefined \<Rightarrow> Undefined
              | Returns _ w2 \<Rightarrow>
                  (let tmp = tmp\<lparr>size_m := size_cb this\<rparr>;
                       (this', tmp') = swap_cb this tmp
                   in case dtor tmp' w2 of
                        Returns _ w3 \<Rightarrow> Returns () (this', w3)
                      | _ \<Rightarrow> Undefined)))
      else Returns () (this, w))"

text \<open>The two loops of \<^verbatim>\<open>insert\<close> that carry the new element to its place.\<close>

function insert_front_loop ::
  "size_t \<Rightarrow> size_t \<Rightarrow> template_iterator \<Rightarrow> 'a world \<Rightarrow> (template_iterator, 'a world) outcome" where
  "insert_front_loop i idx cur w =
     (if i < idx then
        (case iter_swap cur (it_plus cur 1) w of
           Returns _ w' \<Rightarrow> insert_front_loop (i + 1) idx (it_inc cur) w'
         | _ \<Rightarrow> Undefined)
      else Returns cur w)"
  by pat_completeness auto
termination
proof (relation "measure (\<lambda>(i, idx, cur, w). unat idx - unat i)")
  show "wf (measure (\<lambda>(i :: size_t, idx :: size_t, cur :: template_iterator, w :: 'a world).
          unat idx - unat i))"
    by simp
next
  fix i idx :: size_t and cur :: template_iterator and w w' :: "'a world"
  assume "i < idx"
  then have "unat idx - unat (i + 1) < unat idx - unat i"
    by unat_arith
  then show "((i + 1, idx, it_inc cur, w'), (i, idx, cur, w))
      \<in> measure (\<lambda>(i, idx, cur, w). unat idx - unat i)"
    by simp
qed

declare insert_front_loop.simps [simp del]

function insert_back_loop ::
  "size_t \<Rightarrow> size_t \<Rightarrow> template_iterator \<Rightarrow> 'a world \<Rightarrow> (template_iterator, 'a world) outcome" where
  "insert_back_loop i n cur w =
     (if i < n then
        (case iter_swap cur (it_minus cur 1) w of
           Returns _ w' \<Rightarrow> insert_back_loop (i + 1) n (it_dec cur) w'
         | _ \<Rightarrow> Undefined)
      else Returns cur w)"
  by pat_completeness auto
termination
proof (relation "measure (\<lambda>(i, n, cur, w). unat n - unat i)")
  show "wf (measure (\<lambda>(i :: size_t, n :: size_t, cur :: template_iterator, w :: 'a world).
          unat n - unat i))"
    by simp
next
  fix i n :: size_t and cur :: template_iterator and w w' :: "'a world"
  assume "i < n"
  then have "unat n - unat (i + 1) < unat n - unat i"
    by unat_arith
  then show "((i + 1, n, it_dec cur, w'), (i, n, cur, w))
      \<in> measure (\<lambda>(i, n, cur, w). unat n - unat i)"
    by simp
qed

declare insert_back_loop.simps [simp del]

definition insert_cb ::
  "template_iterator \<Rightarrow> 'a \<Rightarrow> circular_buffer \<Rightarrow> 'a world
     \<Rightarrow> (template_iterator, circular_buffer \<times> 'a world) outcome" where
  "insert_cb pos val this w =
     (if size_cb this = capacity this then insert_with_copy pos val this w
      else let idx = it_diff pos (begin_cb this) in
           if word_sless (it_diff pos (begin_cb this)) (it_diff (end_cb this) pos) then
             (case push_front val this w of
                Throws e s \<Rightarrow> Throws e s
              | Undefined \<Rightarrow> Undefined
              | Returns _ (this', w1) \<Rightarrow>
                  (case insert_front_loop 0 idx (begin_cb this') w1 of
                     Returns _ w2 \<Rightarrow> Returns (it_plus (begin_cb this') idx) (this', w2)
                   | _ \<Rightarrow> Undefined))
           else
             (case push_back val this w of
                Throws e s \<Rightarrow> Throws e s
              | Undefined \<Rightarrow> Undefined
              | Returns _ (this', w1) \<Rightarrow>
                  (case insert_back_loop 0 (size_cb this' - idx - 1) (it_minus (end_cb this') 1) w1 of
                     Returns _ w2 \<Rightarrow> Returns (it_plus (begin_cb this') idx) (this', w2)
                   | _ \<Rightarrow> Undefined)))"

text \<open>The loops of \<^verbatim>\<open>erase(first, last)\<close>.\<close>

function erase_front_loop ::
  "template_iterator \<Rightarrow> template_iterator \<Rightarrow> circular_buffer \<Rightarrow> 'a world
     \<Rightarrow> (template_iterator \<times> template_iterator, 'a world) outcome" where
  "erase_front_loop first lst this w =
     (if it_greater first (begin_cb this) then
        (case (slot (data_m this) (it_pos (it_dec first)) (capacity this),
               slot (data_m this) (it_pos (it_dec lst)) (capacity this)) of
           (Some a, Some b) \<Rightarrow>
             (case std_swap a b w of
                Returns _ w' \<Rightarrow> erase_front_loop (it_dec first) (it_dec lst) this w'
              | _ \<Rightarrow> Undefined)
         | _ \<Rightarrow> Undefined)
      else Returns (first, lst) w)"
  by pat_completeness auto
termination
proof (relation "measure (\<lambda>(first, lst, this, w). unat (it_pos first - begin_m this))")
  show "wf (measure (\<lambda>(first :: template_iterator, lst :: template_iterator,
          this :: circular_buffer, w :: 'a world). unat (it_pos first - begin_m this)))"
    by simp
next
  fix first lst :: template_iterator and this :: circular_buffer and w w' :: "'a world"
  assume "it_greater first (begin_cb this)"
  then have "word_sless 0 (it_pos first - begin_m this)"
    by (simp add: it_greater_def it_less_def it_diff_def begin_cb_def)
  then have "it_pos first - begin_m this \<noteq> 0"
    by (auto simp: word_sless_alt)
  then have "unat (it_pos first - begin_m this - 1) < unat (it_pos first - begin_m this)"
    by (simp add: unat_minus_one unat_gt_0)
  then have "unat (it_pos first - 1 - begin_m this) < unat (it_pos first - begin_m this)"
    by (simp only: diff_diff_eq add.commute)
  then show "((it_dec first, it_dec lst, this, w'), (first, lst, this, w))
      \<in> measure (\<lambda>(first, lst, this, w). unat (it_pos first - begin_m this))"
    by (simp add: it_dec_def)
qed

declare erase_front_loop.simps [simp del]

function erase_back_loop ::
  "template_iterator \<Rightarrow> template_iterator \<Rightarrow> circular_buffer \<Rightarrow> 'a world
     \<Rightarrow> (template_iterator \<times> template_iterator, 'a world) outcome" where
  "erase_back_loop first lst this w =
     (if it_less lst (end_cb this) then
        (case (slot (data_m this) (it_pos first) (capacity this),
               slot (data_m this) (it_pos lst) (capacity this)) of
           (Some a, Some b) \<Rightarrow>
             (case std_swap a b w of
                Returns _ w' \<Rightarrow> erase_back_loop (it_inc first) (it_inc lst) this w'
              | _ \<Rightarrow> Undefined)
         | _ \<Rightarrow> Undefined)
      else Returns (first, lst) w)"
  by pat_completeness auto
termination
proof (relation "measure (\<lambda>(first, lst, this, w). unat (it_pos (end_cb this) - it_pos lst))")
  show "wf (measure (\<lambda>(first :: template_iterator, lst :: template_iterator,
          this :: circular_buffer, w :: 'a world). unat (it_pos (end_cb this) - it_pos lst)))"
    by simp
next
  fix first lst :: template_iterator and this :: circular_buffer and w w' :: "'a world"
  assume "it_less lst (end_cb this)"
  then have "word_sless 0 (it_pos (end_cb this) - it_pos lst)"
    by (simp add: it_less_def it_diff_def)
  then have "it_pos (end_cb this) - it_pos lst \<noteq> 0"
    by (auto simp: word_sless_alt)
  then have "unat (it_pos (end_cb this) - it_pos lst - 1) < unat (it_pos (end_cb this) - it_pos lst)"
    by (simp add: unat_minus_one unat_gt_0)
  then have "unat (it_pos (end_cb this) - (it_pos lst + 1)) < unat (it_pos (end_cb this) - it_pos lst)"
    by (simp only: diff_diff_eq)
  then show "((it_inc first, it_inc lst, this, w'), (first, lst, this, w))
      \<in> measure (\<lambda>(first, lst, this, w). unat (it_pos (end_cb this) - it_pos lst))"
    by (simp add: it_inc_def)
qed

declare erase_back_loop.simps [simp del]

function pop_front_loop ::
  "ptrdiff_t \<Rightarrow> circular_buffer \<Rightarrow> 'a world \<Rightarrow> (unit, circular_buffer \<times> 'a world) outcome" where
  "pop_front_loop i this w =
     (if word_sless 0 i then
        (case pop_front this w of
           Returns _ (this', w') \<Rightarrow> pop_front_loop (i - 1) this' w'
         | _ \<Rightarrow> Undefined)
      else Returns () (this, w))"
  by pat_completeness auto
termination
proof (relation "measure (\<lambda>(i, this, w). unat i)")
  show "wf (measure (\<lambda>(i :: ptrdiff_t, this :: circular_buffer, w :: 'a world). unat i))"
    by simp
next
  fix i :: ptrdiff_t and this this' :: circular_buffer and w w' :: "'a world"
  assume "word_sless 0 i"
  then have "i \<noteq> 0"
    by (auto simp: word_sless_alt)
  then have "unat (i - 1) < unat i"
    by (simp add: unat_minus_one unat_gt_0)
  then show "((i - 1, this', w'), (i, this, w)) \<in> measure (\<lambda>(i, this, w). unat i)"
    by simp
qed

declare pop_front_loop.simps [simp del]

function pop_back_loop ::
  "ptrdiff_t \<Rightarrow> circular_buffer \<Rightarrow> 'a world \<Rightarrow> (unit, circular_buffer \<times> 'a world) outcome" where
  "pop_back_loop i this w =
     (if word_sless 0 i then
        (case pop_back this w of
           Returns _ (this', w') \<Rightarrow> pop_back_loop (i - 1) this' w'
         | _ \<Rightarrow> Undefined)
      else Returns () (this, w))"
  by pat_completeness auto
termination
proof (relation "measure (\<lambda>(i, this, w). unat i)")
  show "wf (measure (\<lambda>(i :: ptrdiff_t, this :: circular_buffer, w :: 'a world). unat i))"
    by simp
next
  fix i :: ptrdiff_t and this this' :: circular_buffer and w w' :: "'a world"
  assume "word_sless 0 i"
  then have "i \<noteq> 0"
    by (auto simp: word_sless_alt)
  then have "unat (i - 1) < unat i"
    by (simp add: unat_minus_one unat_gt_0)
  then show "((i - 1, this', w'), (i, this, w)) \<in> measure (\<lambda>(i, this, w). unat i)"
    by simp
qed

declare pop_back_loop.simps [simp del]

text \<open>\<^verbatim>\<open>iterator erase(const_iterator first, const_iterator last)\<close>.\<close>

definition erase ::
  "template_iterator \<Rightarrow> template_iterator \<Rightarrow> circular_buffer \<Rightarrow> 'a world
     \<Rightarrow> (template_iterator, circular_buffer \<times> 'a world) outcome" where
  "erase first lst this w =
     (let diff = it_diff first (begin_cb this) in
      if word_sless (it_diff first (begin_cb this)) (it_diff (end_cb this) lst) then
        (case erase_front_loop first lst this w of
           Returns (first', lst') w1 \<Rightarrow>
             (case pop_front_loop (it_diff lst' first') this w1 of
                Returns _ (this', w2) \<Rightarrow> Returns (it_plus (begin_cb this') diff) (this', w2)
              | _ \<Rightarrow> Undefined)
         | _ \<Rightarrow> Undefined)
      else
        (case erase_back_loop first lst this w of
           Returns (first', lst') w1 \<Rightarrow>
             (case pop_back_loop (it_diff lst' first') this w1 of
                Returns _ (this', w2) \<Rightarrow> Returns (it_plus (begin_cb this') diff) (this', w2)
              | _ \<Rightarrow> Undefined)
         | _ \<Rightarrow> Undefined))"

text \<open>\<^verbatim>\<open>iterator erase(const_iterator pos)\<close>.\<close>

definition erase1 ::
  "template_iterator \<Rightarrow> circular_buffer \<Rightarrow> 'a world
     \<Rightarrow> (template_iterator, circular_buffer \<times> 'a world) outcome" where
  "erase1 pos this w = erase pos (it_plus pos 1) this w"

text \<open>
  The copy constructor. It delegates to the private constructor, so the object exists
  from then on and its destructor runs when the copy of the elements throws.
\<close>

definition copy_ctor :: "circular_buffer \<Rightarrow> 'a world \<Rightarrow> (circular_buffer, 'a world) outcome" where
  "copy_ctor other w =
     (case ctor (capacity other) w of
        Throws e w1 \<Rightarrow> Throws e w1
      | Undefined \<Rightarrow> Undefined
      | Returns this w1 \<Rightarrow>
          (let this = this\<lparr>begin_m := begin_m other\<rparr> in
           case uninitialized_copy (begin_cb other) (end_cb other) (begin_cb this) w1 of
             Throws e w2 \<Rightarrow>
               (case dtor this w2 of
                  Returns _ w3 \<Rightarrow> Throws e w3
                | _ \<Rightarrow> Undefined)
           | Undefined \<Rightarrow> Undefined
           | Returns _ w2 \<Rightarrow> Returns (this\<lparr>size_m := size_cb other\<rparr>) w2))"

section \<open>Programs over several buffers\<close>

text \<open>
  Buffers are objects with an identity: the assignment operator compares the addresses
  of its two operands. A machine holds the named objects of a program and the world.
  A call names the objects it works on. A position is handed over as \<^verbatim>\<open>begin() + k\<close>;
  a position outside \<^verbatim>\<open>[begin(), end()]\<close>, a range that is not one, the construction
  of an object under a name in use and the use of a name that holds no object are
  outside the contract of the class and give \<open>Undefined\<close>.
\<close>

record 'a machine =
  objects :: "nat \<rightharpoonup> circular_buffer"
  memory :: "'a world"

datatype 'a call =
    Default nat
  | Copy nat nat
  | Assign nat nat
  | Destruct nat
  | Push_back nat 'a
  | Push_front nat 'a
  | Pop_back nat
  | Pop_front nat
  | Reserve nat size_t
  | Insert nat size_t 'a
  | Erase nat size_t
  | Erase_range nat size_t size_t
  | Clear nat
  | Swap nat nat

definition invoke ::
  "nat \<Rightarrow> (circular_buffer \<Rightarrow> 'a world \<Rightarrow> ('r, circular_buffer \<times> 'a world) outcome)
     \<Rightarrow> 'a machine \<Rightarrow> (unit, 'a machine) outcome" where
  "invoke x f m =
     (case objects m x of
        None \<Rightarrow> Undefined
      | Some this \<Rightarrow>
          (case f this (memory m) of
             Returns _ (this', w) \<Rightarrow> Returns () \<lparr>objects = (objects m)(x \<mapsto> this'), memory = w\<rparr>
           | Throws e (this', w) \<Rightarrow> Throws e \<lparr>objects = (objects m)(x \<mapsto> this'), memory = w\<rparr>
           | Undefined \<Rightarrow> Undefined))"

text \<open>\<^verbatim>\<open>circular_buffer x(y)\<close>, the object \<open>x\<close> coming into existence.\<close>

definition construct_copy :: "nat \<Rightarrow> nat \<Rightarrow> 'a machine \<Rightarrow> (unit, 'a machine) outcome" where
  "construct_copy x y m =
     (case (objects m x, objects m y) of
        (None, Some other) \<Rightarrow>
          (case copy_ctor other (memory m) of
             Returns this w \<Rightarrow> Returns () \<lparr>objects = (objects m)(x \<mapsto> this), memory = w\<rparr>
           | Throws e w \<Rightarrow> Throws e (m\<lparr>memory := w\<rparr>)
           | Undefined \<Rightarrow> Undefined)
      | _ \<Rightarrow> Undefined)"

text \<open>\<^verbatim>\<open>x = y\<close>: \<^verbatim>\<open>this != &other\<close> compares the two names.\<close>

definition operator_assign :: "nat \<Rightarrow> nat \<Rightarrow> 'a machine \<Rightarrow> (unit, 'a machine) outcome" where
  "operator_assign x y m =
     (case (objects m x, objects m y) of
        (Some this, Some other) \<Rightarrow>
          if x \<noteq> y then
            (case copy_ctor other (memory m) of
               Throws e w1 \<Rightarrow> Throws e (m\<lparr>memory := w1\<rparr>)
             | Undefined \<Rightarrow> Undefined
             | Returns tmp w1 \<Rightarrow>
                 (let (tmp', this') = swap_cb tmp this in
                  case dtor tmp' w1 of
                    Returns _ w2 \<Rightarrow> Returns () \<lparr>objects = (objects m)(x \<mapsto> this'), memory = w2\<rparr>
                  | _ \<Rightarrow> Undefined))
          else Returns () m
      | _ \<Rightarrow> Undefined)"

definition destruct :: "nat \<Rightarrow> 'a machine \<Rightarrow> (unit, 'a machine) outcome" where
  "destruct x m =
     (case objects m x of
        None \<Rightarrow> Undefined
      | Some this \<Rightarrow>
          (case dtor this (memory m) of
             Returns _ w \<Rightarrow> Returns () \<lparr>objects = (objects m)(x := None), memory = w\<rparr>
           | _ \<Rightarrow> Undefined))"

definition swap_objects :: "nat \<Rightarrow> nat \<Rightarrow> 'a machine \<Rightarrow> (unit, 'a machine) outcome" where
  "swap_objects x y m =
     (case (objects m x, objects m y) of
        (Some left, Some right) \<Rightarrow>
          (let (left', right') = swap_cb left right
           in Returns () (m\<lparr>objects := (objects m)(x \<mapsto> left', y \<mapsto> right')\<rparr>))
      | _ \<Rightarrow> Undefined)"

fun step :: "'a call \<Rightarrow> 'a machine \<Rightarrow> (unit, 'a machine) outcome" where
  "step (Default x) m =
     (case objects m x of
        None \<Rightarrow> Returns () (m\<lparr>objects := (objects m)(x \<mapsto> default_ctor)\<rparr>)
      | Some _ \<Rightarrow> Undefined)"
| "step (Copy x y) m = construct_copy x y m"
| "step (Assign x y) m = operator_assign x y m"
| "step (Destruct x) m = destruct x m"
| "step (Push_back x v) m = invoke x (push_back v) m"
| "step (Push_front x v) m = invoke x (push_front v) m"
| "step (Pop_back x) m = invoke x pop_back m"
| "step (Pop_front x) m = invoke x pop_front m"
| "step (Reserve x n) m = invoke x (reserve n) m"
| "step (Insert x k v) m =
     invoke x (\<lambda>this w. if k \<le> size_cb this then insert_cb (it_plus (begin_cb this) k) v this w
                          else Undefined) m"
| "step (Erase x k) m =
     invoke x (\<lambda>this w. if k < size_cb this then erase1 (it_plus (begin_cb this) k) this w
                          else Undefined) m"
| "step (Erase_range x i j) m =
     invoke x (\<lambda>this w. if i \<le> j \<and> j \<le> size_cb this
                          then erase (it_plus (begin_cb this) i) (it_plus (begin_cb this) j) this w
                          else Undefined) m"
| "step (Clear x) m = invoke x clear m"
| "step (Swap x y) m = swap_objects x y m"

text \<open>A program runs on after an exception (the caller catches it) and stops at \<open>Undefined\<close>.\<close>

fun run :: "'a call list \<Rightarrow> 'a machine \<Rightarrow> 'a machine option" where
  "run [] m = Some m"
| "run (c # cs) m =
     (case step c m of
        Returns _ m' \<Rightarrow> run cs m'
      | Throws _ m' \<Rightarrow> run cs m'
      | Undefined \<Rightarrow> None)"

definition boot :: "bool list \<Rightarrow> 'a machine" where
  "boot fs = \<lparr>objects = Map.empty,
              memory = \<lparr>blocks = Map.empty, brk = 0, faults = fs, trace = []\<rparr>\<rparr>"

section \<open>Observations and the class invariant\<close>

text \<open>
  The logical sequence is what \<^verbatim>\<open>operator[]\<close> shows for the indices below \<^verbatim>\<open>size()\<close>:
  \<open>Some v\<close> for an element, \<open>None\<close> where the reference designates no element.
\<close>

definition element :: "circular_buffer \<Rightarrow> 'a world \<Rightarrow> nat \<Rightarrow> 'a option" where
  "element this w i =
     (case subscript (of_nat i) this of
        None \<Rightarrow> None
      | Some r \<Rightarrow> load r w)"

definition elements :: "circular_buffer \<Rightarrow> 'a world \<Rightarrow> 'a option list" where
  "elements this w = map (element this w) [0..<unat (size_cb this)]"

text \<open>
  The block of a buffer read in logical order: from \<^verbatim>\<open>begin_\<close> on and around the end.
  The buffer is \<open>shaped\<close> when it owns a block of \<^verbatim>\<open>capacity()\<close> slots that was
  allocated earlier and \<^verbatim>\<open>begin_\<close> is a slot of it.
\<close>

definition image :: "circular_buffer \<Rightarrow> 'a world \<Rightarrow> 'a option list" where
  "image this w =
     (case blocks w (data_m this) of
        None \<Rightarrow> []
      | Some blk \<Rightarrow> rotate (unat (begin_m this)) blk)"

definition shaped :: "circular_buffer \<Rightarrow> 'a world \<Rightarrow> bool" where
  "shaped this w =
     (capacity_m this \<noteq> 0 \<and> data_m this \<noteq> nullptr \<and> data_m this \<le> brk w \<and>
      begin_m this < capacity_m this \<and> unat (capacity_m this) \<le> max_block \<and>
      (case blocks w (data_m this) of
         None \<Rightarrow> False
       | Some blk \<Rightarrow> length blk = unat (capacity_m this)))"

text \<open>
  The invariants of the class: the size is at most the capacity; a buffer of capacity
  0 owns no block; otherwise it is shaped and its block, in logical order, consists of
  \<^verbatim>\<open>size()\<close> elements followed by empty slots only.
\<close>

definition valid :: "circular_buffer \<Rightarrow> 'a world \<Rightarrow> bool" where
  "valid this w =
     (size_m this \<le> capacity_m this \<and>
      (if capacity_m this = 0 then data_m this = nullptr \<and> begin_m this = 0
       else shaped this w \<and>
            list_all (\<lambda>x. x \<noteq> None) (take (unat (size_m this)) (image this w)) \<and>
            list_all (\<lambda>x. x = None) (drop (unat (size_m this)) (image this w))))"

text \<open>
  \<open>rep this w xs\<close>: the buffer is valid and its logical sequence is \<open>xs\<close>.
  \<open>at_index this i\<close> is the iterator \<^verbatim>\<open>begin() + i\<close>, and \<open>points this it i\<close> says that
  \<open>it\<close> is an iterator into the block of the buffer at distance \<open>i\<close> from \<^verbatim>\<open>begin()\<close>.
\<close>

definition rep :: "circular_buffer \<Rightarrow> 'a world \<Rightarrow> 'a list \<Rightarrow> bool" where
  "rep this w xs =
     (unat (size_m this) = length xs \<and>
      (if capacity_m this = 0 then data_m this = nullptr \<and> begin_m this = 0 \<and> xs = []
       else shaped this w \<and>
            image this w = map Some xs @ replicate (unat (capacity_m this) - length xs) None))"

definition at_index :: "circular_buffer \<Rightarrow> nat \<Rightarrow> template_iterator" where
  "at_index this i = it_plus (begin_cb this) (of_nat i)"

definition points :: "circular_buffer \<Rightarrow> template_iterator \<Rightarrow> nat \<Rightarrow> bool" where
  "points this it i = (it_data it = data_m this \<and> it_pos it = begin_m this + of_nat i)"

text \<open>
  \<open>frame d w w'\<close>: from \<open>w\<close> to \<open>w'\<close> the allocator has only moved on, the schedule of
  failures has only been consumed, the trace has only grown, and no block allocated in
  \<open>w\<close> other than \<open>d\<close> has changed.
\<close>

definition frame :: "pointer \<Rightarrow> 'a world \<Rightarrow> 'a world \<Rightarrow> bool" where
  "frame d w w' =
     (brk w \<le> brk w' \<and>
      (\<exists>j. faults w' = drop j (faults w)) \<and>
      (\<exists>t. trace w' = trace w @ t) \<and>
      (\<forall>p. p \<le> brk w \<longrightarrow> p \<noteq> d \<longrightarrow> blocks w' p = blocks w p))"

text \<open>\<open>quiet d w w'\<close>: nothing but the block \<open>d\<close> differs between \<open>w\<close> and \<open>w'\<close>.\<close>

definition quiet :: "pointer \<Rightarrow> 'a world \<Rightarrow> 'a world \<Rightarrow> bool" where
  "quiet d w w' =
     (brk w' = brk w \<and> faults w' = faults w \<and> trace w' = trace w \<and>
      (\<forall>p. p \<noteq> d \<longrightarrow> blocks w' p = blocks w p))"

text \<open>
  \<open>only d w w'\<close>: the allocator has not moved and no block other than \<open>d\<close> differs
  between \<open>w\<close> and \<open>w'\<close>. \<open>clean m fs\<close>: the schedule \<open>fs\<close> lets the next \<open>m\<close> calls
  that may fail succeed.
\<close>

definition only :: "pointer \<Rightarrow> 'a world \<Rightarrow> 'a world \<Rightarrow> bool" where
  "only d w w' =
     (brk w' = brk w \<and>
      (\<exists>j. faults w' = drop j (faults w)) \<and>
      (\<exists>t. trace w' = trace w @ t) \<and>
      (\<forall>p. p \<noteq> d \<longrightarrow> blocks w' p = blocks w p))"

definition clean :: "nat \<Rightarrow> bool list \<Rightarrow> bool" where
  "clean m fs = (True \<notin> set (take m fs))"

text \<open>
  The element moves of the four loops of \<^verbatim>\<open>insert\<close> and \<^verbatim>\<open>erase\<close> on the logical
  sequence: \<open>m\<close> exchanges of neighbours going up from index \<open>i\<close>, or going down from it;
  the exchanges of the indices \<open>f - 1\<close> and \<open>f - 1 + d\<close> down to \<open>0\<close> and \<open>d\<close>; and \<open>t\<close>
  exchanges of the indices \<open>f\<close> and \<open>f + d\<close> going up.
\<close>

fun bubble_up :: "nat \<Rightarrow> nat \<Rightarrow> 'a list \<Rightarrow> 'a list" where
  "bubble_up 0 i ys = ys"
| "bubble_up (Suc m) i ys = bubble_up m (Suc i) (ys[i := ys ! Suc i, Suc i := ys ! i])"

fun bubble_down :: "nat \<Rightarrow> nat \<Rightarrow> 'a list \<Rightarrow> 'a list" where
  "bubble_down 0 i ys = ys"
| "bubble_down (Suc m) i ys = bubble_down m (i - 1) (ys[i := ys ! (i - 1), i - 1 := ys ! i])"

fun shift_front :: "nat \<Rightarrow> nat \<Rightarrow> 'a list \<Rightarrow> 'a list" where
  "shift_front 0 d ys = ys"
| "shift_front (Suc f) d ys = shift_front f d (ys[f := ys ! (f + d), f + d := ys ! f])"

fun shift_back :: "nat \<Rightarrow> nat \<Rightarrow> nat \<Rightarrow> 'a list \<Rightarrow> 'a list" where
  "shift_back 0 f d ys = ys"
| "shift_back (Suc t) f d ys = shift_back t (Suc f) d (ys[f := ys ! (f + d), f + d := ys ! f])"

text \<open>The state an operation leaves behind, when it leaves one.\<close>

definition result_state :: "('r, 's) outcome \<Rightarrow> 's option" where
  "result_state out =
     (case out of
        Returns _ s \<Rightarrow> Some s
      | Throws _ s \<Rightarrow> Some s
      | Undefined \<Rightarrow> None)"

text \<open>
  A buffer that wraps around, for the examples: capacity 4, \<^verbatim>\<open>begin_\<close> 2, and the logical
  sequence 10, 20, 30 in the slots 2, 3 and 0 of the block at address 1.
\<close>

definition sample_world :: "nat world" where
  "sample_world =
     \<lparr>blocks = [1 \<mapsto> [Some 30, None, Some 10, Some 20]], brk = 1, faults = [], trace = []\<rparr>"

definition sample_buffer :: circular_buffer where
  "sample_buffer = \<lparr>data_m = 1, size_m = 3, capacity_m = 4, begin_m = 2\<rparr>"

definition sample_machine :: "nat machine" where
  "sample_machine = \<lparr>objects = [0 \<mapsto> sample_buffer], memory = sample_world\<rparr>"

section \<open>Auxiliary facts\<close>

lemma max_block_lt: "n \<le> max_block \<Longrightarrow> n < 2 ^ 63"
  by (simp add: max_block_def)

lemma unat_of_nat_small: "i < 2 ^ 64 \<Longrightarrow> unat (of_nat i :: 64 word) = i"
  by (simp add: unat_of_nat)

lemma unat_add_small:
  fixes b :: "64 word"
  assumes "unat b + i < 2 ^ 64"
  shows "unat (b + of_nat i) = unat b + i"
proof -
  have "i < 2 ^ 64" using assms by simp
  then have "unat (of_nat i :: 64 word) = i" by (simp add: unat_of_nat)
  then show ?thesis using assms by (simp add: unat_add_lem [THEN iffD1])
qed

lemma slot_index:
  fixes b c :: "64 word"
  assumes "unat b + i < 2 ^ 64"
  shows "unat ((b + of_nat i) mod c) = (unat b + i) mod unat c"
  using assms by (simp add: unat_mod unat_add_small)

lemma sless_of_nat:
  assumes "i < 2 ^ 63" "j < 2 ^ 63"
  shows "word_sless (of_nat i :: 64 word) (of_nat j) \<longleftrightarrow> i < j"
proof -
  have "sint (of_nat i :: 64 word) = int i" "sint (of_nat j :: 64 word) = int j"
    using assms by (simp_all add: signed_of_nat signed_take_bit_int_eq_self)
  then show ?thesis by (simp add: word_sless_alt)
qed

lemma rotate_update:
  assumes "i < length blk"
  shows "rotate b (blk[(b + i) mod length blk := x]) = (rotate b blk)[i := x]"
proof (rule nth_equalityI)
  show "length (rotate b (blk[(b + i) mod length blk := x])) = length ((rotate b blk)[i := x])"
    by simp
next
  fix j assume "j < length (rotate b (blk[(b + i) mod length blk := x]))"
  then have j: "j < length blk" by simp
  have inj: "(b + j) mod length blk = (b + i) mod length blk \<longleftrightarrow> j = i"
  proof
    assume e: "(b + j) mod length blk = (b + i) mod length blk"
    show "j = i"
    proof (cases "i \<le> j")
      case True
      with e have "length blk dvd (b + j) - (b + i)"
        by (simp add: mod_eq_dvd_iff_nat)
      then have "length blk dvd j - i" by simp
      with j True show ?thesis by (auto dest: dvd_imp_le)
    next
      case False
      with e have "length blk dvd (b + i) - (b + j)"
        using mod_eq_dvd_iff_nat [of "b + j" "b + i" "length blk"] by simp
      then have "length blk dvd i - j" by simp
      with assms False show ?thesis by (auto dest: dvd_imp_le)
    qed
  qed simp
  show "rotate b (blk[(b + i) mod length blk := x]) ! j = (rotate b blk)[i := x] ! j"
  proof (cases "j = i")
    case True
    from assms have "0 < length blk" by linarith
    then have "(b + i) mod length blk < length blk" by simp
    with True assms show ?thesis by (simp add: nth_rotate)
  next
    case False
    with inj have "(b + i) mod length blk \<noteq> (b + j) mod length blk" by auto
    with False j assms show ?thesis by (simp add: nth_rotate)
  qed
qed

lemma rotate_back:
  assumes "blk \<noteq> []"
  shows "rotate ((b + length blk - 1) mod length blk) blk = last (rotate b blk) # butlast (rotate b blk)"
proof -
  let ?Y = "rotate (b + length blk - 1) blk"
  have ne: "?Y \<noteq> []" using assms by simp
  have "rotate1 ?Y = rotate (Suc (b + length blk - 1)) blk" by simp
  also have "Suc (b + length blk - 1) = b + length blk" using assms by (cases blk) auto
  also have "rotate (b + length blk) blk = rotate b blk"
    by (metis add.commute length_rotate rotate_conv_mod rotate_rotate mod_self rotate0 id_apply mod_add_self2)
  finally have r: "rotate1 ?Y = rotate b blk" .
  obtain y ys where Y: "?Y = y # ys" using ne by (cases ?Y) auto
  with r have "rotate b blk = ys @ [y]" by simp
  then have "last (rotate b blk) # butlast (rotate b blk) = ?Y" using Y by simp
  then show ?thesis by (metis rotate_conv_mod)
qed

lemma rotate_forward:
  "rotate ((b + 1) mod length blk) blk = rotate1 (rotate b blk)"
  by (metis rotate_conv_mod rotate_Suc Suc_eq_plus1)

subsection \<open>World fields\<close>

lemma store_fields [simp]:
  "brk (store r x w) = brk w"
  "faults (store r x w) = faults w"
  "trace (store r x w) = trace w"
  by (simp_all add: store_def split: option.splits)

lemma blocks_store:
  "blocks (store r x w) p =
     (if p = fst r then map_option (\<lambda>blk. blk[snd r := x]) (blocks w p) else blocks w p)"
  by (simp add: store_def split: option.splits)

lemma log_fields [simp]:
  "blocks (log e w) = blocks w"
  "brk (log e w) = brk w"
  "faults (log e w) = faults w"
  "trace (log e w) = trace w @ [e]"
  by (simp_all add: log_def)

lemma consume_fields [simp]:
  "blocks (consume w) = blocks w"
  "brk (consume w) = brk w"
  "faults (consume w) = tl (faults w)"
  "trace (consume w) = trace w"
  by (simp_all add: consume_def)

lemma next_fault_iff: "next_fault w \<longleftrightarrow> faults w \<noteq> [] \<and> hd (faults w)"
  by (simp add: next_fault_def split: list.splits)

subsection \<open>Frames\<close>

lemma frame_refl [simp]: "frame d w w"
  unfolding frame_def by (auto intro: exI [of _ 0])

lemma frame_trans:
  assumes "frame d w w1" "frame d' w1 w2" "d' = d \<or> brk w < d'"
  shows "frame d w w2"
proof -
  from assms(1) obtain j t where 1: "brk w \<le> brk w1" "faults w1 = drop j (faults w)"
    "trace w1 = trace w @ t" "\<And>p. p \<le> brk w \<Longrightarrow> p \<noteq> d \<Longrightarrow> blocks w1 p = blocks w p"
    unfolding frame_def by blast
  from assms(2) obtain j' t' where 2: "brk w1 \<le> brk w2" "faults w2 = drop j' (faults w1)"
    "trace w2 = trace w1 @ t'" "\<And>p. p \<le> brk w1 \<Longrightarrow> p \<noteq> d' \<Longrightarrow> blocks w2 p = blocks w1 p"
    unfolding frame_def by blast
  have "faults w2 = drop (j' + j) (faults w)" using 1 2 by simp
  moreover have "trace w2 = trace w @ (t @ t')" using 1 2 by simp
  moreover have "blocks w2 p = blocks w p" if "p \<le> brk w" "p \<noteq> d" for p
  proof -
    from that assms(3) have "p \<noteq> d'" by auto
    with that 1 2 show ?thesis by simp
  qed
  ultimately show ?thesis using 1(1) 2(1) unfolding frame_def by (metis order_trans)
qed

lemma frameI:
  assumes "brk w \<le> brk w'" "faults w' = drop j (faults w)" "trace w' = trace w @ t"
    "\<And>p. p \<le> brk w \<Longrightarrow> p \<noteq> d \<Longrightarrow> blocks w' p = blocks w p"
  shows "frame d w w'"
  using assms unfolding frame_def by blast

lemma frame_store [simp]: "frame d w (store (d, s) x w)"
  by (rule frameI [where j = 0 and t = "[]"]) (simp_all add: blocks_store)

lemma frame_log: "frame d w w' \<Longrightarrow> frame d w (log e w')"
  unfolding frame_def by auto

lemma frame_consume: "frame d w w' \<Longrightarrow> frame d w (consume w')"
  unfolding frame_def by (auto simp: drop_Suc tl_drop intro: exI [of _ "Suc j" for j])

subsection \<open>Shaped buffers\<close>

lemma shapedE:
  assumes "shaped this w"
  obtains blk where "blocks w (data_m this) = Some blk"
    and "length blk = unat (capacity_m this)"
    and "0 < unat (capacity_m this)"
    and "unat (begin_m this) < unat (capacity_m this)"
    and "unat (capacity_m this) < 2 ^ 63"
    and "image this w = rotate (unat (begin_m this)) blk"
    and "data_m this \<noteq> 0" and "data_m this \<le> brk w"
proof -
  from assms have "unat (capacity_m this) < 2 ^ 63"
    by (intro max_block_lt) (simp add: shaped_def)
  with assms that show ?thesis
    by (auto simp: shaped_def image_def nullptr_def word_less_nat_alt unat_gt_0
        simp del: power_numeral split: option.splits)
qed

lemma length_image: "shaped this w \<Longrightarrow> length (image this w) = unat (capacity_m this)"
  by (erule shapedE) simp

lemma shaped_mono:
  assumes "shaped this w" "blocks w' (data_m this) = blocks w (data_m this)" "brk w \<le> brk w'"
  shows "shaped this w'"
  using assms by (auto simp: shaped_def)

lemma image_cong:
  "blocks w' (data_m this) = blocks w (data_m this) \<Longrightarrow> image this w' = image this w"
  by (simp add: image_def)

lemma slot_at:
  assumes "shaped this w" "i \<le> unat (capacity_m this)"
  shows "slot (data_m this) (begin_m this + of_nat i) (capacity_m this) =
           Some (data_m this, (unat (begin_m this) + i) mod unat (capacity_m this))"
proof -
  from assms(1) obtain blk where c: "0 < unat (capacity_m this)"
    "unat (begin_m this) < unat (capacity_m this)" "unat (capacity_m this) < 2 ^ 63"
    by (rule shapedE)
  then have "unat (begin_m this) + i < 2 ^ 64" using assms(2) by simp
  then have "unat ((begin_m this + of_nat i) mod capacity_m this) =
      (unat (begin_m this) + i) mod unat (capacity_m this)"
    by (rule slot_index)
  moreover from c have "capacity_m this \<noteq> 0" by (simp add: unat_gt_0)
  ultimately show ?thesis by (simp add: slot_def)
qed

lemma load_at:
  assumes "shaped this w" "i < unat (capacity_m this)"
  shows "load (data_m this, (unat (begin_m this) + i) mod unat (capacity_m this)) w = image this w ! i"
  using assms by (elim shapedE) (simp add: load_def nth_rotate)

lemma in_block_at:
  assumes "shaped this w"
  shows "in_block (data_m this, s mod unat (capacity_m this)) w"
  using assms by (elim shapedE) (simp add: in_block_def)

lemma image_store:
  assumes "shaped this w" "i < unat (capacity_m this)"
  shows "image this (store (data_m this, (unat (begin_m this) + i) mod unat (capacity_m this)) x w)
           = (image this w)[i := x]"
  using assms by (elim shapedE) (simp add: image_def blocks_store rotate_update [symmetric])

lemma shaped_store [simp]: "shaped this (store r x w) = shaped this w"
  by (auto simp: shaped_def blocks_store split: option.splits)

lemma shaped_log [simp]: "shaped this (log e w) = shaped this w"
  by (simp add: shaped_def)

lemma shaped_consume [simp]: "shaped this (consume w) = shaped this w"
  by (simp add: shaped_def)

lemma image_log [simp]: "image this (log e w) = image this w"
  by (simp add: image_def)

lemma image_consume [simp]: "image this (consume w) = image this w"
  by (simp add: image_def)

lemma image_store_other:
  "fst r \<noteq> data_m this \<Longrightarrow> image this (store r x w) = image this w"
  by (simp add: image_def blocks_store)

subsection \<open>Iterators\<close>

lemma at_index_simps [simp]:
  "it_data (at_index this i) = data_m this"
  "it_pos (at_index this i) = begin_m this + of_nat i"
  "it_size (at_index this i) = capacity_m this"
  by (simp_all add: at_index_def it_plus_def begin_cb_def capacity_def)

lemma points_at_index [simp]: "points this (at_index this i) i"
  by (simp add: points_def)

lemma begin_cb_at_index: "begin_cb this = at_index this 0"
  by (simp add: at_index_def it_plus_def begin_cb_def)

lemma end_cb_at_index: "end_cb this = at_index this (unat (size_m this))"
  by (simp add: at_index_def end_cb_def size_cb_def)

lemma it_inc_at_index: "it_inc (at_index this i) = at_index this (Suc i)"
  by (simp add: at_index_def it_inc_def it_plus_def)

lemma it_plus_at_index: "it_plus (at_index this i) (of_nat j) = at_index this (i + j)"
  by (simp add: at_index_def it_plus_def)

lemma it_plus1_at_index: "it_plus (at_index this i) 1 = at_index this (Suc i)"
  by (simp add: at_index_def it_plus_def)

lemma it_dec_at_index: "it_dec (at_index this (Suc i)) = at_index this i"
  by (simp add: at_index_def it_dec_def it_plus_def)

lemma it_minus1_at_index: "it_minus (at_index this (Suc i)) 1 = at_index this i"
  by (simp add: at_index_def it_minus_def it_plus_def)

lemma it_deref_at_index:
  assumes "shaped this w" "i \<le> unat (capacity_m this)"
  shows "it_deref (at_index this i) =
           Some (data_m this, (unat (begin_m this) + i) mod unat (capacity_m this))"
  using slot_at [OF assms] by (simp add: it_deref_def)

subsection \<open>Representation\<close>

lemma rep_length: "rep this w xs \<Longrightarrow> length xs = unat (size_m this)"
  by (simp add: rep_def)

lemma rep_length_le:
  assumes "rep this w xs"
  shows "length xs \<le> unat (capacity_m this)"
proof (cases "capacity_m this = 0")
  case True
  with assms show ?thesis by (simp add: rep_def)
next
  case False
  with assms have s: "shaped this w"
    and i: "image this w = map Some xs @ replicate (unat (capacity_m this) - length xs) None"
    by (simp_all add: rep_def)
  from length_image [OF s] i have
    "length xs + (unat (capacity_m this) - length xs) = unat (capacity_m this)"
    by (metis length_append length_map length_replicate)
  then show ?thesis by simp
qed

lemma rep_shaped: "rep this w xs \<Longrightarrow> capacity_m this \<noteq> 0 \<Longrightarrow> shaped this w"
  by (simp add: rep_def)

lemma rep_image:
  "rep this w xs \<Longrightarrow> capacity_m this \<noteq> 0 \<Longrightarrow>
     image this w = map Some xs @ replicate (unat (capacity_m this) - length xs) None"
  by (simp add: rep_def)

lemma rep_nonempty_shaped:
  assumes "rep this w xs" "xs \<noteq> []"
  shows "shaped this w"
proof -
  from assms have "capacity_m this \<noteq> 0"
    using rep_length_le [OF assms(1)] by (cases "capacity_m this = 0") auto
  with assms show ?thesis by (simp add: rep_def)
qed

lemma size_of_nat:
  assumes "rep this w xs"
  shows "size_m this = of_nat (length xs)"
proof -
  have "size_m this = of_nat (unat (size_m this))" by simp
  then show ?thesis using rep_length [OF assms] by simp
qed

lemma rep_nth:
  assumes "rep this w xs" "i < length xs"
  shows "image this w ! i = Some (xs ! i)"
proof -
  from assms have "capacity_m this \<noteq> 0"
    using rep_length_le [OF assms(1)] by (cases "capacity_m this = 0") auto
  with assms show ?thesis by (simp add: rep_def nth_append)
qed

lemma element_eq:
  assumes "shaped this w" "i < unat (capacity_m this)"
  shows "element this w i = image this w ! i"
  using slot_at [OF assms(1), of i] load_at [OF assms] assms(2)
  by (simp add: element_def subscript_def capacity_def)

lemma elements_eq:
  assumes "shaped this w" "unat (size_m this) \<le> unat (capacity_m this)"
  shows "elements this w = take (unat (size_m this)) (image this w)"
proof (rule nth_equalityI)
  show "length (elements this w) = length (take (unat (size_m this)) (image this w))"
    using assms by (simp add: elements_def size_cb_def length_image)
next
  fix i assume "i < length (elements this w)"
  then have "i < unat (size_m this)" by (simp add: elements_def size_cb_def)
  with assms show "elements this w ! i = take (unat (size_m this)) (image this w) ! i"
    by (simp add: elements_def size_cb_def element_eq)
qed

lemma rep_iff: "rep this w xs \<longleftrightarrow> valid this w \<and> elements this w = map Some xs"
proof (cases "capacity_m this = 0")
  case True
  show ?thesis
  proof
    assume r: "rep this w xs"
    with True have x: "xs = []" and "unat (size_m this) = length xs"
      by (simp_all add: rep_def)
    then have "unat (size_m this) = 0" by simp
    then have "size_m this = 0" using unat_0_iff by blast
    note this x
    with r True show "valid this w \<and> elements this w = map Some xs"
      by (simp add: rep_def valid_def elements_def size_cb_def)
  next
    assume v: "valid this w \<and> elements this w = map Some xs"
    with True have "size_m this = 0" by (simp add: valid_def)
    moreover from this v have "xs = []" by (simp add: elements_def size_cb_def)
    ultimately show "rep this w xs" using v True by (simp add: rep_def valid_def)
  qed
next
  case False
  show ?thesis
  proof
    assume r: "rep this w xs"
    with False have s: "shaped this w"
      and i: "image this w = map Some xs @ replicate (unat (capacity_m this) - length xs) None"
      and n: "unat (size_m this) = length xs"
      by (simp_all add: rep_def)
    have le: "unat (size_m this) \<le> unat (capacity_m this)"
      using rep_length_le [OF r] n by simp
    have "valid this w"
      using False s i n le by (simp add: valid_def word_le_nat_alt list_all_iff)
    moreover have "elements this w = map Some xs"
      using elements_eq [OF s le] i n by simp
    ultimately show "valid this w \<and> elements this w = map Some xs" ..
  next
    assume v: "valid this w \<and> elements this w = map Some xs"
    with False have s: "shaped this w"
      and le: "unat (size_m this) \<le> unat (capacity_m this)"
      and d: "list_all (\<lambda>x. x = None) (drop (unat (size_m this)) (image this w))"
      by (simp_all add: valid_def word_le_nat_alt)
    from v elements_eq [OF s le] have t: "take (unat (size_m this)) (image this w) = map Some xs"
      by simp
    then have n: "unat (size_m this) = length xs"
      using le length_image [OF s] by (metis length_map length_take min.absorb2)
    from d have "\<forall>y\<in>set (drop (unat (size_m this)) (image this w)). y = None"
      by (simp add: list_all_iff)
    then have "replicate (length (drop (unat (size_m this)) (image this w))) None
        = drop (unat (size_m this)) (image this w)"
      by (rule replicate_length_same)
    then have "drop (unat (size_m this)) (image this w)
        = replicate (length (drop (unat (size_m this)) (image this w))) None"
      by simp
    then have "drop (length xs) (image this w) = replicate (unat (capacity_m this) - length xs) None"
      using n length_image [OF s] by simp
    with t n have "image this w = map Some xs @ replicate (unat (capacity_m this) - length xs) None"
      by (metis append_take_drop_id)
    with False s n show "rep this w xs" by (simp add: rep_def)
  qed
qed

lemma rep_valid: "rep this w xs \<Longrightarrow> valid this w"
  by (simp add: rep_iff)

lemma valid_rep: "valid this w \<Longrightarrow> \<exists>xs. rep this w xs"
proof -
  assume v: "valid this w"
  show ?thesis
  proof (cases "capacity_m this = 0")
    case True
    with v have "rep this w []" by (simp add: valid_def rep_def)
    then show ?thesis ..
  next
    case False
    with v have s: "shaped this w"
      and le: "unat (size_m this) \<le> unat (capacity_m this)"
      and a: "list_all (\<lambda>x. x \<noteq> None) (take (unat (size_m this)) (image this w))"
      by (simp_all add: valid_def word_le_nat_alt)
    from a have "elements this w = map Some (map the (elements this w))"
      using elements_eq [OF s le] by (auto simp: list_all_iff map_idI)
    with v show ?thesis unfolding rep_iff by blast
  qed
qed

lemma rep_frame:
  assumes "rep this w xs" "blocks w' (data_m this) = blocks w (data_m this)" "brk w \<le> brk w'"
  shows "rep this w' xs"
proof -
  have i: "image this w' = image this w" using assms(2) by (rule image_cong)
  have "shaped this w \<Longrightarrow> shaped this w'" using assms(2,3) by (auto intro: shaped_mono)
  with assms(1) i show ?thesis by (auto simp: rep_def)
qed

lemma quiet_refl [simp]: "quiet d w w"
  by (simp add: quiet_def)

lemma quiet_trans: "quiet d w w1 \<Longrightarrow> quiet d w1 w2 \<Longrightarrow> quiet d w w2"
  by (simp add: quiet_def)

lemma quiet_frame: "quiet d w w' \<Longrightarrow> frame d w w'"
  unfolding quiet_def by (intro frameI [where j = 0 and t = "[]"]) simp_all

lemma quiet_store [simp]: "quiet d w (store (d, s) x w)"
  by (simp add: quiet_def blocks_store)

lemma shaped_size_update [simp]: "shaped (this\<lparr>size_m := s\<rparr>) w = shaped this w"
  by (simp add: shaped_def cong: option.case_cong)

lemma image_size_update [simp]: "image (this\<lparr>size_m := s\<rparr>) w = image this w"
  by (simp add: image_def cong: option.case_cong)

lemma rep_Cons_shaped: "rep this w (x # xs) \<Longrightarrow> shaped this w"
  by (erule rep_nonempty_shaped) simp

lemma rep_cap_bound:
  assumes "rep this w xs"
  shows "length xs < 2 ^ 63"
proof (cases "capacity_m this = 0")
  case True
  with assms show ?thesis by (simp add: rep_def)
next
  case False
  with assms have "shaped this w" by (simp add: rep_def)
  then have "unat (capacity_m this) < 2 ^ 63" by (rule shapedE)
  with rep_length_le [OF assms] show ?thesis by simp
qed

lemma update_image:
  assumes "i < length xs"
  shows "(map Some xs @ r)[i := Some y] = map Some (xs[i := y]) @ r"
  using assms by (simp add: list_update_append map_update)

lemma store_same:
  assumes "load r w = Some x"
  shows "store r (Some x) w = w"
proof -
  from assms obtain blk where b: "blocks w (fst r) = Some blk" "snd r < length blk"
    "blk ! snd r = Some x"
    by (auto simp: load_def split: option.splits if_splits)
  then have "blk[snd r := Some x] = blk" by (metis list_update_id)
  moreover have "(blocks w)(fst r \<mapsto> blk) = blocks w" using b(1) by (rule map_upd_triv)
  ultimately show ?thesis using b(1) by (simp add: store_def)
qed

lemma swap_step:
  assumes r: "rep this w xs" and i: "i < length xs" and j: "j < length xs"
  shows "\<exists>w'. std_swap (data_m this, (unat (begin_m this) + i) mod unat (capacity_m this))
                     (data_m this, (unat (begin_m this) + j) mod unat (capacity_m this)) w
                 = Returns () w' \<and>
               rep this w' (xs[i := xs ! j, j := xs ! i]) \<and> quiet (data_m this) w w' \<and>
               (i = j \<longrightarrow> w' = w)"
proof -
  let ?c = "unat (capacity_m this)" and ?b = "unat (begin_m this)" and ?d = "data_m this"
  let ?ri = "(?d, (?b + i) mod ?c)" and ?rj = "(?d, (?b + j) mod ?c)"
  from r i have ne: "capacity_m this \<noteq> 0"
    using rep_length_le [OF r] by (cases "capacity_m this = 0") auto
  with r have s: "shaped this w" by (simp add: rep_def)
  have le: "length xs \<le> ?c" by (rule rep_length_le [OF r])
  have li: "load ?ri w = Some (xs ! i)" using load_at [OF s, of i] rep_nth [OF r i] i le by simp
  have lj: "load ?rj w = Some (xs ! j)" using load_at [OF s, of j] rep_nth [OF r j] j le by simp
  let ?w1 = "store ?ri (Some (xs ! j)) w"
  let ?w2 = "store ?rj (Some (xs ! i)) ?w1"
  have sw: "std_swap ?ri ?rj w = Returns () ?w2"
    by (simp add: std_swap_def li lj)
  have s1: "shaped this ?w1" using s by simp
  have im: "image this ?w2 = (image this w)[i := Some (xs ! j), j := Some (xs ! i)]"
    using image_store [OF s1, of j] image_store [OF s, of i] i j le by simp
  have "rep this ?w2 (xs[i := xs ! j, j := xs ! i])"
    using r ne s i j im by (simp add: rep_def update_image)
  moreover have "quiet ?d w ?w2"
    by (rule quiet_trans [of _ _ ?w1]) simp_all
  moreover have "?w2 = w" if "i = j"
    using that li by (simp add: store_same)
  ultimately show ?thesis using sw by blast
qed

lemma unat_size_pred:
  assumes "rep this w (xs @ [x])"
  shows "size_m this - 1 = of_nat (length xs)"
  using size_of_nat [OF assms] by simp

lemma pop_back_step:
  assumes r: "rep this w (xs @ [x])"
  shows "\<exists>w'. pop_back this w = Returns () (this\<lparr>size_m := size_m this - 1\<rparr>, w') \<and>
           rep (this\<lparr>size_m := size_m this - 1\<rparr>) w' xs \<and>
           frame (data_m this) w w' \<and> brk w' = brk w \<and> faults w' = faults w \<and>
           (\<forall>p. p \<noteq> data_m this \<longrightarrow> blocks w' p = blocks w p) \<and>
           trace w' = trace w @ [Destroyed (data_m this)
              ((unat (begin_m this) + length xs) mod unat (capacity_m this)) x]"
proof -
  let ?c = "unat (capacity_m this)" and ?b = "unat (begin_m this)" and ?d = "data_m this"
  let ?n = "length xs"
  let ?r = "(?d, (?b + ?n) mod ?c)"
  have s: "shaped this w" by (rule rep_nonempty_shaped [OF r]) simp
  then have ne: "capacity_m this \<noteq> 0" by (simp add: shaped_def)
  have le: "Suc ?n \<le> ?c" using rep_length_le [OF r] by simp
  have sz: "size_m this - 1 = of_nat ?n" by (rule unat_size_pred [OF r])
  have bk: "back_cb this = Some ?r"
    using slot_at [OF s, of ?n] le sz
    by (simp add: back_cb_def size_cb_def capacity_def add_diff_eq [symmetric])
  have ld: "load ?r w = Some x"
    using load_at [OF s, of ?n] rep_nth [OF r, of ?n] le by simp
  let ?w' = "log (Destroyed ?d ((?b + ?n) mod ?c) x) (store ?r None w)"
  have pb: "pop_back this w = Returns () (this\<lparr>size_m := size_m this - 1\<rparr>, ?w')"
    by (simp add: pop_back_def bk destroy_def ld)
  have im: "image this ?w' = (image this w)[?n := None]"
    using image_store [OF s, of ?n] le by simp
  have n63: "?n < 2 ^ 63" using rep_cap_bound [OF r] by simp
  have "unat (of_nat ?n :: 64 word) = ?n"
    by (rule unat_of_nat_small) (use n63 in simp)
  then have "rep (this\<lparr>size_m := size_m this - 1\<rparr>) ?w' xs"
    using r ne s im le by (simp add: rep_def sz list_update_append replicate_append_same
        flip: replicate_Suc Suc_diff_le)
  moreover have "frame ?d w ?w'"
    by (intro frame_log) simp
  moreover have "\<forall>p. p \<noteq> ?d \<longrightarrow> blocks ?w' p = blocks w p"
    by (simp add: blocks_store)
  ultimately show ?thesis using pb by auto
qed

lemma shaped_begin_size_update [simp]:
  "shaped (this\<lparr>begin_m := b, size_m := s\<rparr>) w = shaped (this\<lparr>begin_m := b\<rparr>) w"
  by (simp add: shaped_def cong: option.case_cong)

lemma image_begin_size_update [simp]:
  "image (this\<lparr>begin_m := b, size_m := s\<rparr>) w = image (this\<lparr>begin_m := b\<rparr>) w"
  by (simp add: image_def cong: option.case_cong)

lemma shaped_rebegin:
  assumes "shaped this w" "b < capacity_m this"
  shows "shaped (this\<lparr>begin_m := b\<rparr>) w"
  using assms by (simp add: shaped_def cong: option.case_cong)

lemma image_rebegin:
  assumes "blocks w (data_m this) = Some blk"
  shows "image (this\<lparr>begin_m := b\<rparr>) w = rotate (unat b) blk"
  using assms by (simp add: image_def)

lemma unat_succ_mod:
  fixes b c :: "64 word"
  assumes "unat b < unat c" "unat c < 2 ^ 63"
  shows "unat ((b + 1) mod c) = (unat b + 1) mod unat c"
proof -
  have "unat b + 1 < 2 ^ 64" using assms by simp
  then have "unat ((b + of_nat 1) mod c) = (unat b + 1) mod unat c" by (rule slot_index)
  then show ?thesis by simp
qed

lemma unat_pred_mod:
  fixes b c :: "64 word"
  assumes "unat b < unat c" "unat c < 2 ^ 63"
  shows "unat ((b + c - 1) mod c) = (unat b + unat c - 1) mod unat c"
proof -
  have pos: "0 < unat c" using assms by simp
  have "unat b + (unat c - 1) < 2 ^ 64" using assms by simp
  then have "unat ((b + of_nat (unat c - 1)) mod c) = (unat b + (unat c - 1)) mod unat c"
    by (rule slot_index)
  moreover have "(of_nat (unat c - 1) :: 64 word) = c - 1"
    using pos by (simp add: of_nat_diff)
  ultimately show ?thesis using pos by (simp add: add_diff_eq)
qed

lemma mod_less_word:
  fixes a c :: "64 word"
  assumes "c \<noteq> 0"
  shows "a mod c < c"
  using assms by (simp add: word_less_nat_alt unat_mod unat_gt_0)

lemma pop_front_step:
  assumes r: "rep this w (x # xs)"
  shows "\<exists>w'. pop_front this w
             = Returns () (this\<lparr>begin_m := (begin_m this + 1) mod capacity this,
                                size_m := size_m this - 1\<rparr>, w') \<and>
           rep (this\<lparr>begin_m := (begin_m this + 1) mod capacity this,
                     size_m := size_m this - 1\<rparr>) w' xs \<and>
           frame (data_m this) w w' \<and> brk w' = brk w \<and> faults w' = faults w \<and>
           trace w' = trace w @ [Destroyed (data_m this) (unat (begin_m this)) x]"
proof -
  let ?c = "unat (capacity_m this)" and ?b = "unat (begin_m this)" and ?d = "data_m this"
  let ?n = "length xs"
  let ?r = "(?d, ?b)"
  let ?this' = "this\<lparr>begin_m := (begin_m this + 1) mod capacity this, size_m := size_m this - 1\<rparr>"
  have s: "shaped this w" by (rule rep_Cons_shaped [OF r])
  then obtain blk where blk: "blocks w ?d = Some blk" "length blk = ?c" and c0: "0 < ?c"
    and bc: "?b < ?c" and c63: "?c < 2 ^ 63" and im0: "image this w = rotate ?b blk"
    by (rule shapedE)
  have ne: "capacity_m this \<noteq> 0" using c0 by (simp add: unat_gt_0)
  have le: "Suc ?n \<le> ?c" using rep_length_le [OF r] by simp
  have bmod: "(?b + 0) mod ?c = ?b" using bc by simp
  have ld: "load ?r w = Some x"
    using load_at [OF s, of 0] rep_nth [OF r, of 0] c0 bmod by simp
  let ?w' = "log (Destroyed ?d ?b x) (store ?r None w)"
  have pf: "pop_front this w = Returns () (?this', ?w')"
    using ne by (simp add: pop_front_def front_cb_def destroy_def ld capacity_def)
  have im: "image this ?w' = (image this w)[0 := None]"
    using image_store [OF s, of 0 None] c0 bmod by simp
  have imr: "image this w = Some x # map Some xs @ replicate (?c - Suc ?n) None"
    using rep_image [OF r ne] by simp
  have blk': "blocks ?w' ?d = Some (blk[?b := None])"
    using blk by (simp add: blocks_store)
  have nb: "unat ((begin_m this + 1) mod capacity_m this) = (?b + 1) mod ?c"
    using bc c63 by (rule unat_succ_mod)
  have "image ?this' ?w' = rotate ((?b + 1) mod length (blk[?b := None])) (blk[?b := None])"
    using blk' nb blk(2) by (simp add: image_def capacity_def)
  also have "\<dots> = rotate1 (rotate ?b (blk[?b := None]))"
    by (rule rotate_forward)
  also have "rotate ?b (blk[?b := None]) = image this ?w'"
    using blk' by (simp add: image_def)
  finally have im': "image ?this' ?w' = map Some xs @ replicate (?c - Suc ?n) None @ [None]"
    using im imr by simp
  have sz: "size_m this - 1 = of_nat ?n" using size_of_nat [OF r] by simp
  have n63: "?n < 2 ^ 64" using rep_cap_bound [OF r] by simp
  have un: "unat (of_nat ?n :: 64 word) = ?n" using n63 by (rule unat_of_nat_small)
  have sh: "shaped ?this' ?w'"
    using s ne by (simp add: shaped_rebegin capacity_def mod_less_word)
  have "replicate (?c - Suc ?n) None @ [None] = replicate (?c - ?n) (None :: 'a option)"
    using le by (simp add: replicate_append_same flip: replicate_Suc Suc_diff_le)
  then have "rep ?this' ?w' xs"
    using ne sh im' un by (simp add: rep_def sz)
  moreover have "frame ?d w ?w'"
    by (intro frame_log) simp
  ultimately show ?thesis using pf by auto
qed

lemma push_back_in_place:
  assumes r: "rep this w xs" and room: "size_m this \<noteq> capacity_m this"
  shows "push_back v this w =
           (if next_fault w then Throws copy_failure (this, consume w)
            else Returns () (this\<lparr>size_m := size_m this + 1\<rparr>,
                   log (Constructed (data_m this)
                          ((unat (begin_m this) + length xs) mod unat (capacity_m this)) v)
                     (store (data_m this, (unat (begin_m this) + length xs) mod unat (capacity_m this))
                        (Some v) (consume w))))"
    and "\<not> next_fault w \<Longrightarrow>
           rep (this\<lparr>size_m := size_m this + 1\<rparr>)
             (log (Constructed (data_m this)
                     ((unat (begin_m this) + length xs) mod unat (capacity_m this)) v)
                (store (data_m this, (unat (begin_m this) + length xs) mod unat (capacity_m this))
                   (Some v) (consume w)))
             (xs @ [v])"
proof -
  let ?c = "unat (capacity_m this)" and ?b = "unat (begin_m this)" and ?d = "data_m this"
  let ?n = "length xs"
  let ?r = "(?d, (?b + ?n) mod ?c)"
  have le: "?n \<le> ?c" by (rule rep_length_le [OF r])
  have n: "unat (size_m this) = ?n" using r by (simp add: rep_def)
  from room have "unat (size_m this) \<noteq> ?c" by (simp add: word_unat_eq_iff)
  with le n have lt: "?n < ?c" by simp
  then have ne: "capacity_m this \<noteq> 0" by (auto simp: unat_gt_0 [symmetric])
  with r have s: "shaped this w" by (simp add: rep_def)
  have sl: "slot ?d (begin_m this + size_cb this) (capacity this) = Some ?r"
    using slot_at [OF s, of ?n] lt size_of_nat [OF r] by (simp add: size_cb_def capacity_def)
  have ib: "in_block ?r w" by (rule in_block_at [OF s])
  show "push_back v this w =
           (if next_fault w then Throws copy_failure (this, consume w)
            else Returns () (this\<lparr>size_m := size_m this + 1\<rparr>,
                   log (Constructed ?d ((?b + ?n) mod ?c) v) (store ?r (Some v) (consume w))))"
    using room ib by (simp add: push_back_def size_cb_def capacity_def sl [unfolded size_cb_def capacity_def]
        placement_new_def)
  assume "\<not> next_fault w"
  let ?w' = "log (Constructed ?d ((?b + ?n) mod ?c) v) (store ?r (Some v) (consume w))"
  have sc: "shaped this (consume w)" using s by simp
  have im: "image this ?w' = (image this w)[?n := Some v]"
    using image_store [OF sc, of ?n] lt by simp
  have c63: "?c < 2 ^ 63" using s by (rule shapedE)
  have "unat (size_m this + 1) = Suc ?n"
    using n lt c63 by (simp add: unat_word_ariths)
  moreover have "(replicate (?c - ?n) None)[0 := Some v] = Some v # replicate (?c - Suc ?n) None"
    using lt by (cases "?c - ?n") simp_all
  ultimately show "rep (this\<lparr>size_m := size_m this + 1\<rparr>) ?w' (xs @ [v])"
    using ne s im rep_image [OF r ne] by (simp add: rep_def list_update_append)
qed

lemma butlast_image:
  assumes "n < c"
  shows "butlast (map Some xs @ replicate (c - n) None) = map Some xs @ replicate (c - Suc n) None"
    and "last (map Some xs @ replicate (c - n) None) = None"
proof -
  from assms obtain k where k: "c - n = Suc k" by (cases "c - n") auto
  then have k': "c - Suc n = k" by simp
  have "replicate (Suc k) (None :: 'a option) = replicate k None @ [None]"
    by (simp add: replicate_append_same)
  then show "butlast (map Some xs @ replicate (c - n) None) = map Some xs @ replicate (c - Suc n) None"
    unfolding k k' by (simp add: butlast_append del: replicate_Suc)
  show "last (map Some xs @ replicate (c - n) None) = None"
    unfolding k by simp
qed

lemma push_front_in_place:
  assumes r: "rep this w xs" and room: "size_m this \<noteq> capacity_m this"
  defines "nb \<equiv> (begin_m this + capacity_m this - 1) mod capacity_m this"
  shows "push_front v this w =
           (if next_fault w then Throws copy_failure (this, consume w)
            else Returns () (this\<lparr>begin_m := nb, size_m := size_m this + 1\<rparr>,
                   log (Constructed (data_m this) (unat nb) v)
                     (store (data_m this, unat nb) (Some v) (consume w))))"
    and "\<not> next_fault w \<Longrightarrow>
           rep (this\<lparr>begin_m := nb, size_m := size_m this + 1\<rparr>)
             (log (Constructed (data_m this) (unat nb) v)
                (store (data_m this, unat nb) (Some v) (consume w)))
             (v # xs)"
    and "unat nb = (unat (begin_m this) + unat (capacity_m this) - 1) mod unat (capacity_m this)"
proof -
  let ?c = "unat (capacity_m this)" and ?b = "unat (begin_m this)" and ?d = "data_m this"
  let ?n = "length xs"
  let ?r = "(?d, unat nb)"
  let ?this' = "this\<lparr>begin_m := nb, size_m := size_m this + 1\<rparr>"
  have le: "?n \<le> ?c" by (rule rep_length_le [OF r])
  have n: "unat (size_m this) = ?n" using r by (simp add: rep_def)
  from room have "unat (size_m this) \<noteq> ?c" by (simp add: word_unat_eq_iff)
  with le n have lt: "?n < ?c" by simp
  then have ne: "capacity_m this \<noteq> 0" by (auto simp: unat_gt_0 [symmetric])
  with r have s: "shaped this w" by (simp add: rep_def)
  then obtain blk where blk: "blocks w ?d = Some blk" "length blk = ?c" and c0: "0 < ?c"
    and bc: "?b < ?c" and c63: "?c < 2 ^ 63" and im0: "image this w = rotate ?b blk"
    by (rule shapedE)
  show nbu: "unat nb = (?b + ?c - 1) mod ?c"
    unfolding nb_def using bc c63 by (rule unat_pred_mod)
  then have nbc: "unat nb < ?c" using c0 by simp
  have ib: "in_block ?r w" using blk nbc by (simp add: in_block_def)
  show "push_front v this w =
           (if next_fault w then Throws copy_failure (this, consume w)
            else Returns () (?this', log (Constructed ?d (unat nb) v) (store ?r (Some v) (consume w))))"
    using room ne ib by (simp add: push_front_def size_cb_def capacity_def placement_new_def Let_def nb_def)
  assume "\<not> next_fault w"
  let ?w' = "log (Constructed ?d (unat nb) v) (store ?r (Some v) (consume w))"
  have blk': "blocks ?w' ?d = Some (blk[unat nb := Some v])"
    using blk by (simp add: blocks_store)
  have bne: "blk \<noteq> []" using blk(2) c0 by auto
  have "image ?this' ?w' = rotate (unat nb) (blk[(unat nb + 0) mod length blk := Some v])"
    using blk' nbc blk(2) by (simp add: image_def)
  also have "\<dots> = (rotate (unat nb) blk)[0 := Some v]"
    by (rule rotate_update) (use c0 blk(2) in simp)
  also have "rotate (unat nb) blk = last (rotate ?b blk) # butlast (rotate ?b blk)"
    unfolding nbu blk(2) [symmetric] by (rule rotate_back [OF bne])
  finally have "image ?this' ?w' = Some v # butlast (image this w)"
    using im0 by simp
  then have im': "image ?this' ?w' = Some v # map Some xs @ replicate (?c - Suc ?n) None"
    using rep_image [OF r ne] butlast_image(1) [OF lt] by simp
  have nbw: "nb < capacity_m this" unfolding nb_def by (rule mod_less_word [OF ne])
  have sh: "shaped ?this' ?w'"
    using s nbw by (simp add: shaped_rebegin)
  have "unat (size_m this + 1) = Suc ?n"
    using n lt c63 by (simp add: unat_word_ariths)
  then show "rep ?this' ?w' (v # xs)"
    using ne sh im' by (simp add: rep_def)
qed

subsection \<open>The element moves on lists\<close>

lemma length_bubble_up [simp]: "length (bubble_up m i ys) = length ys"
  by (induction m arbitrary: i ys) simp_all

lemma length_bubble_down [simp]: "length (bubble_down m i ys) = length ys"
  by (induction m arbitrary: i ys) simp_all

lemma length_shift_front [simp]: "length (shift_front f d ys) = length ys"
  by (induction f arbitrary: ys) simp_all

lemma length_shift_back [simp]: "length (shift_back t f d ys) = length ys"
  by (induction t arbitrary: f ys) simp_all

lemma bubble_up_append:
  "length A = i \<Longrightarrow> length B = m \<Longrightarrow> bubble_up m i (A @ v # B @ C) = A @ B @ v # C"
proof (induction m arbitrary: i A B)
  case 0
  then show ?case by simp
next
  case (Suc m)
  then obtain b B' where B: "B = b # B'" by (cases B) auto
  with Suc.prems have lb: "length B' = m" by simp
  have sw: "(A @ v # B @ C)[i := (A @ v # B @ C) ! Suc i, Suc i := (A @ v # B @ C) ! i]
      = (A @ [b]) @ v # B' @ C"
    using Suc.prems(1) B by (simp add: list_update_append nth_append)
  have ih: "bubble_up m (Suc i) ((A @ [b]) @ v # B' @ C) = (A @ [b]) @ B' @ v # C"
    by (rule Suc.IH) (use Suc.prems(1) lb in simp_all)
  have "bubble_up (Suc m) i (A @ v # B @ C) = bubble_up m (Suc i) ((A @ [b]) @ v # B' @ C)"
    by (simp only: bubble_up.simps sw)
  also note ih
  finally show ?case using B by simp
qed

lemma bubble_down_append:
  "length A + length B = i \<Longrightarrow> length B = m \<Longrightarrow>
     bubble_down m i (A @ B @ v # C) = A @ v # B @ C"
proof (induction m arbitrary: i B C)
  case 0
  then show ?case by simp
next
  case (Suc m)
  then obtain b B' where B: "B = B' @ [b]" by (cases B rule: rev_cases) auto
  with Suc.prems have lb: "length B' = m" by simp
  from Suc.prems B have i: "i = Suc (length A + length B')" by simp
  have sw: "(A @ B @ v # C)[i := (A @ B @ v # C) ! (i - 1), i - 1 := (A @ B @ v # C) ! i]
      = A @ B' @ v # (b # C)"
    unfolding B i by (simp add: list_update_append nth_append)
  have ih: "bubble_down m (i - 1) (A @ B' @ v # (b # C)) = A @ v # B' @ (b # C)"
    by (rule Suc.IH) (use i lb in simp_all)
  have "bubble_down (Suc m) i (A @ B @ v # C) = bubble_down m (i - 1) (A @ B' @ v # (b # C))"
    by (simp only: bubble_down.simps sw)
  also note ih
  finally show ?case using B by simp
qed

lemma shift_front_drop:
  "length A = f \<Longrightarrow> length M = d \<Longrightarrow> drop d (shift_front f d (A @ M @ R)) = A @ R"
proof (induction f arbitrary: A M R)
  case 0
  then show ?case by simp
next
  case (Suc f)
  then obtain a A' where A: "A = A' @ [a]" by (cases A rule: rev_cases) auto
  with Suc.prems have la: "length A' = f" by simp
  show ?case
  proof (cases M rule: rev_cases)
    case Nil
    with Suc.prems have d: "d = 0" by simp
    have sw: "(A @ M @ R)[f := (A @ M @ R) ! (f + d), f + d := (A @ M @ R) ! f] = A' @ [] @ (a # R)"
      unfolding d A Nil using la by (simp add: list_update_append nth_append)
    have ih: "drop d (shift_front f d (A' @ [] @ (a # R))) = A' @ (a # R)"
      by (rule Suc.IH) (use la d in simp_all)
    have "shift_front (Suc f) d (A @ M @ R) = shift_front f d (A' @ [] @ (a # R))"
      by (simp only: shift_front.simps sw)
    with ih show ?thesis using A by simp
  next
    case (snoc M' m)
    with Suc.prems have d: "d = Suc (length M')" by simp
    have sw: "(A @ M @ R)[f := (A @ M @ R) ! (f + d), f + d := (A @ M @ R) ! f]
        = A' @ (m # M') @ (a # R)"
      unfolding d A snoc using la by (simp add: list_update_append nth_append)
    have ih: "drop d (shift_front f d (A' @ (m # M') @ (a # R))) = A' @ (a # R)"
      by (rule Suc.IH) (use la d in simp_all)
    have "shift_front (Suc f) d (A @ M @ R) = shift_front f d (A' @ (m # M') @ (a # R))"
      by (simp only: shift_front.simps sw)
    with ih show ?thesis using A by simp
  qed
qed

lemma shift_back_take:
  "length A = f \<Longrightarrow> length M = d \<Longrightarrow> length B = t \<Longrightarrow>
     take (f + t) (shift_back t f d (A @ M @ B)) = A @ B"
proof (induction t arbitrary: f A M B)
  case 0
  then show ?case by simp
next
  case (Suc t)
  then obtain b B' where B: "B = b # B'" by (cases B) auto
  with Suc.prems have lb: "length B' = t" by simp
  show ?case
  proof (cases M)
    case Nil
    with Suc.prems have d: "d = 0" by simp
    have sw: "(A @ M @ B)[f := (A @ M @ B) ! (f + d), f + d := (A @ M @ B) ! f] = (A @ [b]) @ [] @ B'"
      unfolding d B Nil using Suc.prems(1) by (simp add: list_update_append nth_append)
    have ih: "take (Suc f + t) (shift_back t (Suc f) d ((A @ [b]) @ [] @ B')) = (A @ [b]) @ B'"
      by (rule Suc.IH) (use Suc.prems(1) lb d in simp_all)
    have "shift_back (Suc t) f d (A @ M @ B) = shift_back t (Suc f) d ((A @ [b]) @ [] @ B')"
      by (simp only: shift_back.simps sw)
    with ih show ?thesis using B by simp
  next
    case (Cons m M')
    with Suc.prems have d: "d = Suc (length M')" by simp
    have sw: "(A @ M @ B)[f := (A @ M @ B) ! (f + d), f + d := (A @ M @ B) ! f]
        = (A @ [b]) @ (M' @ [m]) @ B'"
      unfolding d B Cons using Suc.prems(1) by (simp add: list_update_append nth_append)
    have ih: "take (Suc f + t) (shift_back t (Suc f) d ((A @ [b]) @ (M' @ [m]) @ B')) = (A @ [b]) @ B'"
      by (rule Suc.IH) (use Suc.prems(1) lb d in simp_all)
    have "shift_back (Suc t) f d (A @ M @ B) = shift_back t (Suc f) d ((A @ [b]) @ (M' @ [m]) @ B')"
      by (simp only: shift_back.simps sw)
    with ih show ?thesis using B by simp
  qed
qed

lemma of_nat_less_word:
  assumes "i < 2 ^ 64" "j < 2 ^ 64"
  shows "(of_nat i :: 64 word) < of_nat j \<longleftrightarrow> i < j"
  using assms by (simp add: word_less_nat_alt unat_of_nat_small)

lemma rep_swap_at:
  assumes r: "rep this w ys" and i: "i < length ys" and j: "j < length ys"
  shows "\<exists>w'. iter_swap (at_index this i) (at_index this j) w = Returns () w' \<and>
               rep this w' (ys[i := ys ! j, j := ys ! i]) \<and> quiet (data_m this) w w'"
proof -
  have s: "shaped this w" using r i by (intro rep_nonempty_shaped [OF r]) auto
  have le: "length ys \<le> unat (capacity_m this)" by (rule rep_length_le [OF r])
  have "it_deref (at_index this i) =
      Some (data_m this, (unat (begin_m this) + i) mod unat (capacity_m this))"
    by (rule it_deref_at_index [OF s]) (use i le in simp)
  moreover have "it_deref (at_index this j) =
      Some (data_m this, (unat (begin_m this) + j) mod unat (capacity_m this))"
    by (rule it_deref_at_index [OF s]) (use j le in simp)
  ultimately show ?thesis using swap_step [OF r i j] by (auto simp: iter_swap_def)
qed

lemma insert_front_loop_spec:
  assumes "rep this w ys" "i + m < length ys"
  shows "\<exists>w'. insert_front_loop (of_nat i) (of_nat (i + m)) (at_index this i) w
                 = Returns (at_index this (i + m)) w' \<and>
               rep this w' (bubble_up m i ys) \<and> quiet (data_m this) w w'"
  using assms
proof (induction m arbitrary: i ys w)
  case 0
  then show ?case by (simp add: insert_front_loop.simps)
next
  case (Suc m)
  have b63: "length ys < 2 ^ 63" by (rule rep_cap_bound [OF Suc.prems(1)])
  then have lt: "(of_nat i :: 64 word) < of_nat (i + Suc m)"
    using Suc.prems(2) by (subst of_nat_less_word) simp_all
  from rep_swap_at [OF Suc.prems(1), of i "Suc i"] Suc.prems(2)
  obtain w1 where sw: "iter_swap (at_index this i) (at_index this (Suc i)) w = Returns () w1"
    and r1: "rep this w1 (ys[i := ys ! Suc i, Suc i := ys ! i])"
    and q1: "quiet (data_m this) w w1"
    by auto
  from Suc.IH [OF r1, of "Suc i"] Suc.prems(2)
  obtain w2 where
    l2: "insert_front_loop (of_nat (Suc i)) (of_nat (Suc i + m)) (at_index this (Suc i)) w1
           = Returns (at_index this (Suc i + m)) w2"
    and r2: "rep this w2 (bubble_up m (Suc i) (ys[i := ys ! Suc i, Suc i := ys ! i]))"
    and q2: "quiet (data_m this) w1 w2"
    by auto
  have "insert_front_loop (of_nat i) (of_nat (i + Suc m)) (at_index this i) w
      = Returns (at_index this (i + Suc m)) w2"
    using lt sw l2
    by (subst insert_front_loop.simps) (simp add: it_plus1_at_index it_inc_at_index add.commute)
  with r2 quiet_trans [OF q1 q2] show ?case by auto
qed

lemma insert_back_loop_spec:
  assumes "rep this w ys" "i < length ys" "m \<le> i" "k + m < 2 ^ 64"
  shows "\<exists>w'. insert_back_loop (of_nat k) (of_nat (k + m)) (at_index this i) w
                 = Returns (at_index this (i - m)) w' \<and>
               rep this w' (bubble_down m i ys) \<and> quiet (data_m this) w w'"
  using assms
proof (induction m arbitrary: i k ys w)
  case 0
  then show ?case by (simp add: insert_back_loop.simps)
next
  case (Suc m)
  then obtain i' where i': "i = Suc i'" by (cases i) auto
  have lt: "(of_nat k :: 64 word) < of_nat (k + Suc m)"
    using Suc.prems(4) by (subst of_nat_less_word) simp_all
  from rep_swap_at [OF Suc.prems(1), of i i'] Suc.prems(2) i'
  obtain w1 where sw: "iter_swap (at_index this i) (at_index this i') w = Returns () w1"
    and r1: "rep this w1 (ys[i := ys ! i', i' := ys ! i])"
    and q1: "quiet (data_m this) w w1"
    by auto
  from Suc.IH [OF r1, of i' "Suc k"] Suc.prems i'
  obtain w2 where
    l2: "insert_back_loop (of_nat (Suc k)) (of_nat (Suc k + m)) (at_index this i') w1
           = Returns (at_index this (i' - m)) w2"
    and r2: "rep this w2 (bubble_down m i' (ys[i := ys ! i', i' := ys ! i]))"
    and q2: "quiet (data_m this) w1 w2"
    by auto
  have "insert_back_loop (of_nat k) (of_nat (k + Suc m)) (at_index this i) w
      = Returns (at_index this (i - Suc m)) w2"
    using lt sw l2 i'
    by (subst insert_back_loop.simps) (simp add: it_minus1_at_index it_dec_at_index add.commute)
  moreover have "rep this w2 (bubble_down (Suc m) i ys)"
    using r2 i' by simp
  ultimately show ?case using quiet_trans [OF q1 q2] by auto
qed

lemma of_nat_diff_word:
  "k \<le> n \<Longrightarrow> (of_nat n :: 64 word) - of_nat k = of_nat (n - k)"
  by (simp add: of_nat_diff)

lemma frame_construct:
  "frame d w (log e (store (d, s) x (consume w)))"
  by (rule frameI [where j = 1 and t = "[e]"]) (simp_all add: blocks_store drop_Suc)

lemma insert_in_place:
  assumes r: "rep this w xs" and room: "size_m this \<noteq> capacity_m this"
    and k: "k \<le> length xs" and pos: "it_pos pos = begin_m this + of_nat k"
  defines "front \<equiv> k < length xs - k"
  defines "nb \<equiv> (begin_m this + capacity_m this - 1) mod capacity_m this"
  defines "this' \<equiv> (if front then this\<lparr>begin_m := nb, size_m := size_m this + 1\<rparr>
                      else this\<lparr>size_m := size_m this + 1\<rparr>)"
  defines "s \<equiv> (if front then unat nb
                 else (unat (begin_m this) + length xs) mod unat (capacity_m this))"
  shows "if next_fault w then insert_cb pos v this w = Throws copy_failure (this, consume w)
         else \<exists>w'. insert_cb pos v this w = Returns (at_index this' k) (this', w') \<and>
                rep this' w' (take k xs @ v # drop k xs) \<and>
                frame (data_m this) w w' \<and> brk w' = brk w \<and> faults w' = tl (faults w) \<and>
                trace w' = trace w @ [Constructed (data_m this) s v]"
proof -
  let ?n = "length xs"
  have n63: "?n < 2 ^ 63" by (rule rep_cap_bound [OF r])
  have sz: "size_m this = of_nat ?n" by (rule size_of_nat [OF r])
  have idx: "it_diff pos (begin_cb this) = of_nat k"
    using pos by (simp add: it_diff_def begin_cb_def)
  have idx0: "it_diff pos (at_index this 0) = of_nat k"
    using pos by (simp add: it_diff_def)
  have plus0: "it_plus (at_index c 0) (of_nat k) = at_index c k" for c
    by (simp add: at_index_def it_plus_def)
  have "it_diff (end_cb this) pos = of_nat ?n - of_nat k"
    using pos sz by (simp add: it_diff_def end_cb_def begin_cb_def it_plus_def size_cb_def)
  then have dif: "it_diff (end_cb this) pos = of_nat (?n - k)"
    by (simp only: of_nat_diff_word [OF k])
  have cond: "word_sless (it_diff pos (begin_cb this)) (it_diff (end_cb this) pos) \<longleftrightarrow> front"
    unfolding idx dif front_def using n63 k by (subst sless_of_nat) simp_all
  have nf: "size_cb this \<noteq> capacity this" using room by (simp add: size_cb_def capacity_def)
  show ?thesis
  proof (cases "next_fault w")
    case True
    then show ?thesis
      using nf cond push_front_in_place(1) [OF r room, of v] push_back_in_place(1) [OF r room, of v]
      by (simp add: insert_cb_def Let_def)
  next
    case False
    show ?thesis
    proof (cases front)
      case True
      let ?this1 = "this\<lparr>begin_m := nb, size_m := size_m this + 1\<rparr>"
      let ?w1 = "log (Constructed (data_m this) (unat nb) v)
                   (store (data_m this, unat nb) (Some v) (consume w))"
      have pf: "push_front v this w = Returns () (?this1, ?w1)"
        using push_front_in_place(1) [OF r room, of v] False by (simp add: nb_def)
      have r1: "rep ?this1 ?w1 (v # xs)"
        using push_front_in_place(2) [OF r room False, of v] by (simp add: nb_def)
      from insert_front_loop_spec [OF r1, of 0 k] k
      obtain w2 where l: "insert_front_loop 0 (of_nat k) (at_index ?this1 0) ?w1
            = Returns (at_index ?this1 k) w2"
        and r2: "rep ?this1 w2 (bubble_up k 0 (v # xs))"
        and q: "quiet (data_m ?this1) ?w1 w2"
        by auto
      have "bubble_up k 0 ([] @ v # take k xs @ drop k xs) = [] @ take k xs @ v # drop k xs"
        by (rule bubble_up_append) (use k in simp_all)
      then have bu: "bubble_up k 0 (v # xs) = take k xs @ v # drop k xs" by simp
      have ins: "insert_cb pos v this w = Returns (at_index ?this1 k) (?this1, w2)"
        using nf cond True pf l
        by (simp add: insert_cb_def Let_def idx0 begin_cb_at_index plus0)
      have "frame (data_m this) w ?w1" by (rule frame_construct)
      then have "frame (data_m this) w w2"
        using quiet_frame [OF q] by (rule frame_trans) simp_all
      then show ?thesis
        using False True ins r2 q by (simp add: bu this'_def s_def quiet_def)
    next
      case nfront: False
      let ?this1 = "this\<lparr>size_m := size_m this + 1\<rparr>"
      let ?sl = "(unat (begin_m this) + ?n) mod unat (capacity_m this)"
      let ?w1 = "log (Constructed (data_m this) ?sl v) (store (data_m this, ?sl) (Some v) (consume w))"
      have pb: "push_back v this w = Returns () (?this1, ?w1)"
        using push_back_in_place(1) [OF r room, of v] False by simp
      have r1: "rep ?this1 ?w1 (xs @ [v])"
        using push_back_in_place(2) [OF r room False, of v] by simp
      have sz1: "unat (size_m ?this1) = Suc ?n" using rep_length [OF r1] by simp
      have e1: "it_minus (end_cb ?this1) 1 = at_index ?this1 ?n"
        unfolding end_cb_at_index sz1 by (rule it_minus1_at_index)
      have cnt: "size_cb ?this1 - of_nat k - 1 = of_nat (?n - k)"
        using k by (simp add: size_cb_def sz of_nat_diff)
      have small: "0 + (?n - k) < (2 :: nat) ^ 64"
        using n63 by (simp del: power_numeral) (rule less_trans [of _ "2 ^ 63"], simp_all)
      from insert_back_loop_spec [OF r1 _ _ small, of ?n]
      obtain w2 where l: "insert_back_loop 0 (of_nat (?n - k)) (at_index ?this1 ?n) ?w1
            = Returns (at_index ?this1 (?n - (?n - k))) w2"
        and r2: "rep ?this1 w2 (bubble_down (?n - k) ?n (xs @ [v]))"
        and q: "quiet (data_m ?this1) ?w1 w2"
        by auto
      have "bubble_down (?n - k) ?n (take k xs @ drop k xs @ v # []) = take k xs @ v # drop k xs @ []"
        by (rule bubble_down_append) (use k in simp_all)
      moreover have "take k xs @ drop k xs @ [v] = xs @ [v]"
        by (simp flip: append_assoc)
      ultimately have bd: "bubble_down (?n - k) ?n (xs @ [v]) = take k xs @ v # drop k xs"
        by simp
      have ins: "insert_cb pos v this w = Returns (at_index ?this1 k) (?this1, w2)"
        using nf cond nfront pb l
        by (simp add: insert_cb_def Let_def idx0 e1 cnt begin_cb_at_index plus0)
      have "frame (data_m this) w ?w1" by (rule frame_construct)
      then have "frame (data_m this) w w2"
        using quiet_frame [OF q] by (rule frame_trans) simp_all
      then show ?thesis
        using False nfront ins r2 q by (simp add: bd this'_def s_def quiet_def)
    qed
  qed
qed

lemma points_dec: "points this it (Suc i) \<Longrightarrow> points this (it_dec it) i"
  by (simp add: points_def it_dec_def)

lemma points_inc: "points this it i \<Longrightarrow> points this (it_inc it) (Suc i)"
  by (simp add: points_def it_inc_def)

lemma sless_zero_of_nat:
  assumes "i < 2 ^ 63"
  shows "word_sless 0 (of_nat i :: 64 word) \<longleftrightarrow> 0 < i"
  using sless_of_nat [of 0 i] assms by simp

lemma rep_swap_slots:
  assumes r: "rep this w ys" and i: "i < length ys" and j: "j < length ys"
    and a: "a = begin_m this + of_nat i" and b: "b = begin_m this + of_nat j"
  shows "\<exists>ra rb w'. slot (data_m this) a (capacity this) = Some ra \<and>
               slot (data_m this) b (capacity this) = Some rb \<and>
               std_swap ra rb w = Returns () w' \<and>
               rep this w' (ys[i := ys ! j, j := ys ! i]) \<and> quiet (data_m this) w w' \<and>
               (i = j \<longrightarrow> w' = w)"
proof -
  have s: "shaped this w" using r i by (intro rep_nonempty_shaped [OF r]) auto
  have le: "length ys \<le> unat (capacity_m this)" by (rule rep_length_le [OF r])
  have "slot (data_m this) a (capacity this) =
      Some (data_m this, (unat (begin_m this) + i) mod unat (capacity_m this))"
    unfolding a capacity_def by (rule slot_at [OF s]) (use i le in simp)
  moreover have "slot (data_m this) b (capacity this) =
      Some (data_m this, (unat (begin_m this) + j) mod unat (capacity_m this))"
    unfolding b capacity_def by (rule slot_at [OF s]) (use j le in simp)
  ultimately show ?thesis using swap_step [OF r i j] by auto
qed

lemma erase_front_loop_spec:
  assumes "rep this w ys" "points this first f" "points this lst (f + d)" "f + d \<le> length ys"
  shows "\<exists>first' lst' w'. erase_front_loop first lst this w = Returns (first', lst') w' \<and>
           points this first' 0 \<and> points this lst' d \<and>
           rep this w' (shift_front f d ys) \<and> quiet (data_m this) w w' \<and>
           (d = 0 \<longrightarrow> w' = w)"
  using assms
proof (induction f arbitrary: first lst ys w)
  case 0
  then have "\<not> it_greater first (begin_cb this)"
    by (simp add: it_greater_def it_less_def it_diff_def begin_cb_def points_def word_sless_alt)
  with 0 show ?case by (subst erase_front_loop.simps) simp
next
  case (Suc f)
  have b63: "length ys < 2 ^ 63" by (rule rep_cap_bound [OF Suc.prems(1)])
  have "word_sless 0 (of_nat (Suc f) :: 64 word)"
    by (subst sless_zero_of_nat) (use b63 Suc.prems(4) in simp_all)
  then have g: "it_greater first (begin_cb this)"
    using Suc.prems(2)
    by (simp add: it_greater_def it_less_def it_diff_def begin_cb_def points_def)
  have pf: "points this (it_dec first) f" using Suc.prems(2) by (rule points_dec)
  have pl: "points this (it_dec lst) (f + d)" using Suc.prems(3) by (simp add: points_dec)
  from rep_swap_slots [OF Suc.prems(1), of f "f + d" "it_pos (it_dec first)" "it_pos (it_dec lst)"]
    pf pl Suc.prems(4)
  obtain ra rb w1 where sl: "slot (data_m this) (it_pos (it_dec first)) (capacity this) = Some ra"
      "slot (data_m this) (it_pos (it_dec lst)) (capacity this) = Some rb"
    and sw: "std_swap ra rb w = Returns () w1"
    and r1: "rep this w1 (ys[f := ys ! (f + d), f + d := ys ! f])"
    and q1: "quiet (data_m this) w w1" and e1: "d = 0 \<longrightarrow> w1 = w"
    by (auto simp: points_def)
  from Suc.IH [OF r1 pf pl] Suc.prems(4)
  obtain first' lst' w2 where
    l2: "erase_front_loop (it_dec first) (it_dec lst) this w1 = Returns (first', lst') w2"
    and p2: "points this first' 0" "points this lst' d"
    and r2: "rep this w2 (shift_front f d (ys[f := ys ! (f + d), f + d := ys ! f]))"
    and q2: "quiet (data_m this) w1 w2" and e2: "d = 0 \<longrightarrow> w2 = w1"
    by auto
  have "erase_front_loop first lst this w = Returns (first', lst') w2"
    using g sl sw l2 by (subst erase_front_loop.simps) simp
  with p2 r2 quiet_trans [OF q1 q2] e1 e2 show ?case by auto
qed

lemma erase_back_loop_spec:
  assumes "rep this w ys" "points this first f" "points this lst (f + d)" "f + d + t = length ys"
  shows "\<exists>first' lst' w'. erase_back_loop first lst this w = Returns (first', lst') w' \<and>
           points this first' (f + t) \<and> points this lst' (f + d + t) \<and>
           rep this w' (shift_back t f d ys) \<and> quiet (data_m this) w w' \<and>
           (d = 0 \<longrightarrow> w' = w)"
  using assms
proof (induction t arbitrary: first lst f ys w)
  case 0
  have len: "length ys = f + d" using 0(4) by simp
  have "it_pos (end_cb this) = it_pos lst"
    using 0(3) size_of_nat [OF 0(1)]
    by (simp add: end_cb_def it_plus_def begin_cb_def size_cb_def points_def len)
  then have "\<not> it_less lst (end_cb this)"
    by (simp add: it_less_def it_diff_def word_sless_alt)
  with 0 show ?case by (subst erase_back_loop.simps) simp
next
  case (Suc t)
  have b63: "length ys < 2 ^ 63" by (rule rep_cap_bound [OF Suc.prems(1)])
  have "it_pos (end_cb this) = begin_m this + of_nat (length ys)"
    using size_of_nat [OF Suc.prems(1)] by (simp add: end_cb_def it_plus_def begin_cb_def size_cb_def)
  then have "it_diff (end_cb this) lst = of_nat (Suc t)"
    using Suc.prems(3,4) by (simp add: it_diff_def points_def flip: Suc.prems(4))
  moreover have "word_sless 0 (of_nat (Suc t) :: 64 word)"
    by (subst sless_zero_of_nat) (use b63 Suc.prems(4) in simp_all)
  ultimately have g: "it_less lst (end_cb this)"
    using Suc.prems(3) by (simp add: it_less_def points_def end_cb_def it_plus_def begin_cb_def)
  have pf: "points this (it_inc first) (Suc f)" using Suc.prems(2) by (rule points_inc)
  have pl: "points this (it_inc lst) (Suc f + d)" using Suc.prems(3) by (simp add: points_inc)
  from rep_swap_slots [OF Suc.prems(1), of f "f + d" "it_pos first" "it_pos lst"]
    Suc.prems(2,3,4)
  obtain ra rb w1 where sl: "slot (data_m this) (it_pos first) (capacity this) = Some ra"
      "slot (data_m this) (it_pos lst) (capacity this) = Some rb"
    and sw: "std_swap ra rb w = Returns () w1"
    and r1: "rep this w1 (ys[f := ys ! (f + d), f + d := ys ! f])"
    and q1: "quiet (data_m this) w w1" and e1: "d = 0 \<longrightarrow> w1 = w"
    by (auto simp: points_def)
  from Suc.IH [OF r1 pf pl] Suc.prems(4)
  obtain first' lst' w2 where
    l2: "erase_back_loop (it_inc first) (it_inc lst) this w1 = Returns (first', lst') w2"
    and p2: "points this first' (Suc f + t)" "points this lst' (Suc f + d + t)"
    and r2: "rep this w2 (shift_back t (Suc f) d (ys[f := ys ! (f + d), f + d := ys ! f]))"
    and q2: "quiet (data_m this) w1 w2" and e2: "d = 0 \<longrightarrow> w2 = w1"
    by auto
  have "erase_back_loop first lst this w = Returns (first', lst') w2"
    using g sl sw l2 by (subst erase_back_loop.simps) simp
  with p2 r2 quiet_trans [OF q1 q2] e1 e2 show ?case by auto
qed

lemma pop_front_loop_spec:
  assumes "rep this w (P @ xs)" "length P = t"
  shows "\<exists>this' w'. pop_front_loop (of_nat t) this w = Returns () (this', w') \<and>
           rep this' w' xs \<and> frame (data_m this) w w' \<and>
           data_m this' = data_m this \<and> capacity_m this' = capacity_m this \<and>
           brk w' = brk w \<and> faults w' = faults w \<and> (t = 0 \<longrightarrow> this' = this \<and> w' = w)"
  using assms
proof (induction t arbitrary: this w P)
  case 0
  then show ?case by (subst pop_front_loop.simps) (simp add: word_sless_alt)
next
  case (Suc t)
  then obtain p P' where P: "P = p # P'" by (cases P) auto
  have b63: "length (P @ xs) < 2 ^ 63" by (rule rep_cap_bound [OF Suc.prems(1)])
  have g: "word_sless 0 (of_nat (Suc t) :: 64 word)"
    by (subst sless_zero_of_nat) (use b63 Suc.prems(2) in simp_all)
  let ?this1 = "this\<lparr>begin_m := (begin_m this + 1) mod capacity this, size_m := size_m this - 1\<rparr>"
  from pop_front_step [of this w p "P' @ xs"] Suc.prems(1) P
  obtain w1 where pf: "pop_front this w = Returns () (?this1, w1)"
    and r1: "rep ?this1 w1 (P' @ xs)"
    and f1: "frame (data_m this) w w1" and o1: "brk w1 = brk w" "faults w1 = faults w"
    by auto
  from Suc.IH [OF r1] Suc.prems(2) P
  obtain this' w2 where l2: "pop_front_loop (of_nat t) ?this1 w1 = Returns () (this', w2)"
    and r2: "rep this' w2 xs" and f2: "frame (data_m ?this1) w1 w2"
    and o2: "data_m this' = data_m ?this1" "capacity_m this' = capacity_m ?this1"
      "brk w2 = brk w1" "faults w2 = faults w1"
    by auto
  have "pop_front_loop (of_nat (Suc t)) this w = Returns () (this', w2)"
    using g pf l2 by (subst pop_front_loop.simps) simp
  moreover have "frame (data_m this) w w2"
    using f1 f2 by (rule frame_trans) simp
  ultimately show ?case using r2 o1 o2 by auto
qed

lemma pop_back_loop_spec:
  assumes "rep this w (xs @ P)" "length P = t"
  shows "\<exists>this' w'. pop_back_loop (of_nat t) this w = Returns () (this', w') \<and>
           rep this' w' xs \<and> frame (data_m this) w w' \<and>
           data_m this' = data_m this \<and> capacity_m this' = capacity_m this \<and>
           begin_m this' = begin_m this \<and> brk w' = brk w \<and> faults w' = faults w \<and>
           (t = 0 \<longrightarrow> this' = this \<and> w' = w)"
  using assms
proof (induction t arbitrary: this w P)
  case 0
  then show ?case by (subst pop_back_loop.simps) (simp add: word_sless_alt)
next
  case (Suc t)
  then obtain p P' where P: "P = P' @ [p]" by (cases P rule: rev_cases) auto
  have b63: "length (xs @ P) < 2 ^ 63" by (rule rep_cap_bound [OF Suc.prems(1)])
  have g: "word_sless 0 (of_nat (Suc t) :: 64 word)"
    by (subst sless_zero_of_nat) (use b63 Suc.prems(2) in simp_all)
  let ?this1 = "this\<lparr>size_m := size_m this - 1\<rparr>"
  from pop_back_step [of this w "xs @ P'" p] Suc.prems(1) P
  obtain w1 where pf: "pop_back this w = Returns () (?this1, w1)"
    and r1: "rep ?this1 w1 (xs @ P')"
    and f1: "frame (data_m this) w w1" and o1: "brk w1 = brk w" "faults w1 = faults w"
    by auto
  from Suc.IH [OF r1] Suc.prems(2) P
  obtain this' w2 where l2: "pop_back_loop (of_nat t) ?this1 w1 = Returns () (this', w2)"
    and r2: "rep this' w2 xs" and f2: "frame (data_m ?this1) w1 w2"
    and o2: "data_m this' = data_m ?this1" "capacity_m this' = capacity_m ?this1"
      "begin_m this' = begin_m ?this1" "brk w2 = brk w1" "faults w2 = faults w1"
    by auto
  have "pop_back_loop (of_nat (Suc t)) this w = Returns () (this', w2)"
    using g pf l2 by (subst pop_back_loop.simps) simp
  moreover have "frame (data_m this) w w2"
    using f1 f2 by (rule frame_trans) simp
  ultimately show ?case using r2 o1 o2 by auto
qed

lemma split3:
  assumes "f \<le> l" "l \<le> length xs"
  shows "xs = take f xs @ take (l - f) (drop f xs) @ drop l xs"
proof -
  have "drop f xs = take (l - f) (drop f xs) @ drop (l - f) (drop f xs)"
    by (simp only: append_take_drop_id)
  also have "drop (l - f) (drop f xs) = drop l xs" using assms by simp
  finally show ?thesis by (metis append_take_drop_id)
qed

lemma erase_spec:
  assumes r: "rep this w xs" and pf: "points this first f" and pl: "points this lst l"
    and fl: "f \<le> l" and ln: "l \<le> length xs"
  shows "\<exists>this' w'. erase first lst this w = Returns (at_index this' f) (this', w') \<and>
           rep this' w' (take f xs @ drop l xs) \<and>
           data_m this' = data_m this \<and> capacity_m this' = capacity_m this \<and>
           frame (data_m this) w w' \<and> brk w' = brk w \<and> faults w' = faults w \<and>
           (f = l \<longrightarrow> this' = this \<and> w' = w)"
proof -
  let ?n = "length xs" and ?d = "l - f"
  let ?A = "take f xs" and ?M = "take (l - f) (drop f xs)" and ?R = "drop l xs"
  have xs: "xs = ?A @ ?M @ ?R" using fl ln by (rule split3)
  have lA: "length ?A = f" using fl ln by simp
  have lM: "length ?M = ?d" using fl ln by simp
  have lR: "length ?R = ?n - l" by simp
  have n63: "?n < 2 ^ 63" by (rule rep_cap_bound [OF r])
  have sz: "size_m this = of_nat ?n" by (rule size_of_nat [OF r])
  have diff: "it_diff first (begin_cb this) = of_nat f"
    using pf by (simp add: it_diff_def begin_cb_def points_def)
  have "it_diff (end_cb this) lst = of_nat ?n - of_nat l"
    using pl sz by (simp add: it_diff_def end_cb_def begin_cb_def it_plus_def size_cb_def points_def)
  then have dif2: "it_diff (end_cb this) lst = of_nat (?n - l)"
    by (simp only: of_nat_diff_word [OF ln])
  have cond: "word_sless (it_diff first (begin_cb this)) (it_diff (end_cb this) lst) \<longleftrightarrow> f < ?n - l"
    unfolding diff dif2 using n63 fl ln by (subst sless_of_nat) simp_all
  have pl': "points this lst (f + ?d)" using pl fl by simp
  have res: "it_plus (begin_cb c) (of_nat f) = at_index c f" for c
    by (simp add: at_index_def)
  show ?thesis
  proof (cases "f < ?n - l")
    case True
    from erase_front_loop_spec [OF r pf pl'] fl ln
    obtain first' lst' w1 where l1: "erase_front_loop first lst this w = Returns (first', lst') w1"
      and p1: "points this first' 0" "points this lst' ?d"
      and r1: "rep this w1 (shift_front f ?d xs)" and q1: "quiet (data_m this) w w1"
      and e1: "?d = 0 \<longrightarrow> w1 = w"
      by auto
    have d1: "it_diff lst' first' = of_nat ?d"
      using p1 by (simp add: it_diff_def points_def)
    let ?ys = "shift_front f ?d xs"
    have "drop ?d (shift_front f ?d (?A @ ?M @ ?R)) = ?A @ ?R"
      using lA lM by (rule shift_front_drop)
    then have dr: "drop ?d ?ys = ?A @ ?R" using xs by simp
    have "?ys = take ?d ?ys @ drop ?d ?ys" by simp
    with dr have ys: "?ys = take ?d ?ys @ (?A @ ?R)" by simp
    have lt: "length (take ?d ?ys) = ?d" using fl ln by simp
    from r1 ys have r1': "rep this w1 (take ?d ?ys @ (?A @ ?R))" by simp
    from pop_front_loop_spec [OF r1' lt]
    obtain this' w2 where l2: "pop_front_loop (of_nat ?d) this w1 = Returns () (this', w2)"
      and r2: "rep this' w2 (?A @ ?R)" and f2: "frame (data_m this) w1 w2"
      and o2: "data_m this' = data_m this" "capacity_m this' = capacity_m this"
        "brk w2 = brk w1" "faults w2 = faults w1"
      and e2: "?d = 0 \<longrightarrow> this' = this \<and> w2 = w1"
      by auto
    have "erase first lst this w = Returns (at_index this' f) (this', w2)"
      using cond True l1 l2 by (simp add: erase_def Let_def d1 diff res)
    moreover have "frame (data_m this) w w2"
      using quiet_frame [OF q1] f2 by (rule frame_trans) simp
    moreover have "f = l \<longrightarrow> this' = this \<and> w2 = w" using e1 e2 by simp
    ultimately show ?thesis using r2 o2 q1 by (auto simp: quiet_def)
  next
    case False
    let ?t = "?n - l"
    have sum: "f + ?d + ?t = ?n" using fl ln by simp
    from erase_back_loop_spec [OF r pf pl' sum]
    obtain first' lst' w1 where l1: "erase_back_loop first lst this w = Returns (first', lst') w1"
      and p1: "points this first' (f + ?t)" "points this lst' (f + ?d + ?t)"
      and r1: "rep this w1 (shift_back ?t f ?d xs)" and q1: "quiet (data_m this) w w1"
      and e1: "?d = 0 \<longrightarrow> w1 = w"
      by auto
    have d1: "it_diff lst' first' = of_nat ?d"
      using p1 by (simp add: it_diff_def points_def)
    let ?ys = "shift_back ?t f ?d xs"
    have "take (f + ?t) (shift_back ?t f ?d (?A @ ?M @ ?R)) = ?A @ ?R"
      using lA lM lR by (rule shift_back_take)
    then have tk: "take (f + ?t) ?ys = ?A @ ?R" using xs by simp
    have "?ys = take (f + ?t) ?ys @ drop (f + ?t) ?ys" by simp
    with tk have ys: "?ys = (?A @ ?R) @ drop (f + ?t) ?ys" by simp
    have lt: "length (drop (f + ?t) ?ys) = ?d" using fl ln by simp
    from r1 ys have r1': "rep this w1 ((?A @ ?R) @ drop (f + ?t) ?ys)" by simp
    from pop_back_loop_spec [OF r1' lt]
    obtain this' w2 where l2: "pop_back_loop (of_nat ?d) this w1 = Returns () (this', w2)"
      and r2: "rep this' w2 (?A @ ?R)" and f2: "frame (data_m this) w1 w2"
      and o2: "data_m this' = data_m this" "capacity_m this' = capacity_m this"
        "brk w2 = brk w1" "faults w2 = faults w1"
      and e2: "?d = 0 \<longrightarrow> this' = this \<and> w2 = w1"
      by auto
    have "erase first lst this w = Returns (at_index this' f) (this', w2)"
      using cond False l1 l2 by (simp add: erase_def Let_def d1 diff res)
    moreover have "frame (data_m this) w w2"
      using quiet_frame [OF q1] f2 by (rule frame_trans) simp
    moreover have "f = l \<longrightarrow> this' = this \<and> w2 = w" using e1 e2 by simp
    ultimately show ?thesis using r2 o2 q1 by (auto simp: quiet_def)
  qed
qed

subsection \<open>The sample buffer\<close>

lemma rotate_two: "rotate 2 xs = rotate1 (rotate1 xs)"
  by (simp add: rotate_def numeral_2_eq_2)

lemma sample_rep: "rep sample_buffer sample_world [10, 20, 30]"
  by (simp add: rep_def shaped_def image_def sample_buffer_def sample_world_def nullptr_def
      max_block_def rotate_two)

lemma sample_valid: "valid sample_buffer sample_world"
  using sample_rep by (rule rep_valid)

lemma sample_elements: "elements sample_buffer sample_world = map Some [10, 20, 30]"
  using sample_rep by (simp add: rep_iff)

lemma sample_fields [simp]:
  "data_m sample_buffer = 1" "size_m sample_buffer = 3"
  "capacity_m sample_buffer = 4" "begin_m sample_buffer = 2"
  "faults sample_world = []" "trace sample_world = []" "brk sample_world = 1"
  by (simp_all add: sample_buffer_def sample_world_def)

lemma sample_no_fault: "\<not> next_fault sample_world"
  by (simp add: next_fault_def)

subsection \<open>Worlds that differ in one block\<close>

lemma only_refl [simp]: "only d w w"
  unfolding only_def by (auto intro: exI [of _ 0])

lemma onlyI:
  assumes "brk w' = brk w" "faults w' = drop j (faults w)" "trace w' = trace w @ t"
    "\<And>p. p \<noteq> d \<Longrightarrow> blocks w' p = blocks w p"
  shows "only d w w'"
  using assms unfolding only_def by blast

lemma only_trans:
  assumes "only d w w1" "only d w1 w2"
  shows "only d w w2"
proof -
  from assms(1) obtain j t where 1: "brk w1 = brk w" "faults w1 = drop j (faults w)"
    "trace w1 = trace w @ t" "\<And>p. p \<noteq> d \<Longrightarrow> blocks w1 p = blocks w p"
    unfolding only_def by blast
  from assms(2) obtain j' t' where 2: "brk w2 = brk w1" "faults w2 = drop j' (faults w1)"
    "trace w2 = trace w1 @ t'" "\<And>p. p \<noteq> d \<Longrightarrow> blocks w2 p = blocks w1 p"
    unfolding only_def by blast
  show ?thesis
    by (rule onlyI [where j = "j' + j" and t = "t @ t'"]) (use 1 2 in simp_all)
qed

lemma only_frame: "only d w w' \<Longrightarrow> frame d w w'"
  unfolding only_def frame_def by auto

lemma quiet_only: "quiet d w w' \<Longrightarrow> only d w w'"
  unfolding quiet_def by (intro onlyI [where j = 0 and t = "[]"]) simp_all

lemma only_blocks: "only d w w' \<Longrightarrow> p \<noteq> d \<Longrightarrow> blocks w' p = blocks w p"
  by (simp add: only_def)

lemma only_brk: "only d w w' \<Longrightarrow> brk w' = brk w"
  by (simp add: only_def)

lemma rep_only:
  assumes "rep c w xs" "only d w w'" "data_m c \<noteq> d"
  shows "rep c w' xs"
  using assms(1) by (rule rep_frame) (use assms(2,3) in \<open>simp_all add: only_def\<close>)

lemma frame_trans2:
  assumes "frame d1 w w1" "frame d2 w1 w2" "d1 = d \<or> brk w < d1" "d2 = d \<or> brk w < d2"
  shows "frame d w w2"
proof -
  from assms(1) obtain j t where 1: "brk w \<le> brk w1" "faults w1 = drop j (faults w)"
    "trace w1 = trace w @ t" "\<And>p. p \<le> brk w \<Longrightarrow> p \<noteq> d1 \<Longrightarrow> blocks w1 p = blocks w p"
    unfolding frame_def by blast
  from assms(2) obtain j' t' where 2: "brk w1 \<le> brk w2" "faults w2 = drop j' (faults w1)"
    "trace w2 = trace w1 @ t'" "\<And>p. p \<le> brk w1 \<Longrightarrow> p \<noteq> d2 \<Longrightarrow> blocks w2 p = blocks w1 p"
    unfolding frame_def by blast
  show ?thesis
  proof (rule frameI [where j = "j' + j" and t = "t @ t'"])
    fix p assume p: "p \<le> brk w" "p \<noteq> d"
    with assms(3,4) have "p \<noteq> d1" "p \<noteq> d2" by auto
    with p 1 2 show "blocks w2 p = blocks w p" by simp
  qed (use 1 2 in simp_all)
qed

subsection \<open>Clearing and destroying\<close>

lemma clear_spec:
  assumes "rep this w xs"
  shows "\<exists>w'. clear this w = Returns () (this\<lparr>size_m := 0\<rparr>, w') \<and>
           rep (this\<lparr>size_m := 0\<rparr>) w' [] \<and> only (data_m this) w w' \<and> faults w' = faults w \<and>
           trace w' = trace w @
             map (\<lambda>i. Destroyed (data_m this)
                    ((unat (begin_m this) + i) mod unat (capacity_m this)) (xs ! i))
               (rev [0..<length xs])"
  using assms
proof (induction xs arbitrary: this w rule: rev_induct)
  case Nil
  then have z: "size_m this = 0" by (simp add: rep_def unat_0_iff)
  then have e: "this\<lparr>size_m := 0\<rparr> = this" by (metis circular_buffer.surjective circular_buffer.update_convs(2))
  have "clear this w = Returns () (this, w)"
    using z by (subst clear.simps) (simp add: empty_cb_def size_cb_def)
  then show ?case unfolding e using Nil by simp
next
  case (snoc x xs)
  let ?this1 = "this\<lparr>size_m := size_m this - 1\<rparr>"
  let ?f = "\<lambda>ys i. Destroyed (data_m this)
              ((unat (begin_m this) + i) mod unat (capacity_m this)) (ys ! i)"
  have "unat (size_m this) = Suc (length xs)" using rep_length [OF snoc.prems] by simp
  then have ne: "\<not> empty_cb this" by (auto simp: empty_cb_def size_cb_def)
  from pop_back_step [OF snoc.prems]
  obtain w1 where pb: "pop_back this w = Returns () (?this1, w1)"
    and r1: "rep ?this1 w1 xs"
    and o1: "brk w1 = brk w" "faults w1 = faults w"
      "\<forall>p. p \<noteq> data_m this \<longrightarrow> blocks w1 p = blocks w p"
    and t1: "trace w1 = trace w @ [?f (xs @ [x]) (length xs)]"
    by auto
  from snoc.IH [OF r1]
  obtain w2 where c2: "clear ?this1 w1 = Returns () (?this1\<lparr>size_m := 0\<rparr>, w2)"
    and r2: "rep (?this1\<lparr>size_m := 0\<rparr>) w2 []"
    and o2: "only (data_m ?this1) w1 w2" "faults w2 = faults w1"
    and t2: "trace w2 = trace w1 @ map (?f xs) (rev [0..<length xs])"
    by auto
  have cl: "clear this w = Returns () (this\<lparr>size_m := 0\<rparr>, w2)"
    using ne pb c2 by (subst clear.simps) simp
  have "only (data_m this) w w1"
    by (rule onlyI [where j = 0 and t = "[?f (xs @ [x]) (length xs)]"]) (use o1 t1 in simp_all)
  then have on: "only (data_m this) w w2" using o2(1) by (auto intro: only_trans)
  have "map (?f xs) (rev [0..<length xs]) = map (?f (xs @ [x])) (rev [0..<length xs])"
    by (simp add: nth_append)
  then have "trace w2 = trace w @ map (?f (xs @ [x])) (rev [0..<length (xs @ [x])])"
    using t1 t2 by simp
  with cl r2 on o1 o2 show ?case by simp
qed

lemma dtor_spec:
  assumes "rep this w xs"
  shows "\<exists>w'. dtor this w = Returns () w' \<and> only (data_m this) w w' \<and> faults w' = faults w \<and>
           (if capacity_m this = 0 then w' = w
            else blocks w' (data_m this) = None \<and>
                 trace w' = trace w @
                   map (\<lambda>i. Destroyed (data_m this)
                          ((unat (begin_m this) + i) mod unat (capacity_m this)) (xs ! i))
                     (rev [0..<length xs]) @ [Released (data_m this)])"
proof -
  from clear_spec [OF assms]
  obtain w1 where cl: "clear this w = Returns () (this\<lparr>size_m := 0\<rparr>, w1)"
    and r1: "rep (this\<lparr>size_m := 0\<rparr>) w1 []"
    and o1: "only (data_m this) w w1" "faults w1 = faults w"
    and t1: "trace w1 = trace w @
             map (\<lambda>i. Destroyed (data_m this)
                    ((unat (begin_m this) + i) mod unat (capacity_m this)) (xs ! i))
               (rev [0..<length xs])"
    by auto
  show ?thesis
  proof (cases "capacity_m this = 0")
    case True
    with assms have "data_m this = nullptr" "xs = []" by (simp_all add: rep_def)
    moreover from this assms have "clear this w = Returns () (this, w)"
      by (subst clear.simps) (simp add: empty_cb_def size_cb_def rep_def unat_0_iff)
    ultimately show ?thesis using True by (simp add: dtor_def operator_delete_def)
  next
    case False
    with r1 have "shaped (this\<lparr>size_m := 0\<rparr>) w1" by (simp add: rep_def)
    then obtain blk where b: "blocks w1 (data_m this) = Some blk" and d: "data_m this \<noteq> 0"
      by (auto elim: shapedE)
    let ?w' = "log (Released (data_m this)) (w1\<lparr>blocks := (blocks w1)(data_m this := None)\<rparr>)"
    have dt: "dtor this w = Returns () ?w'"
      using cl b d by (simp add: dtor_def operator_delete_def nullptr_def)
    have "only (data_m this) w1 ?w'"
      by (rule onlyI [where j = 0 and t = "[Released (data_m this)]"]) simp_all
    with o1(1) have "only (data_m this) w ?w'" by (rule only_trans)
    with dt False o1 t1 show ?thesis by simp
  qed
qed

section \<open>Insertion with spare capacity\<close>

text \<open>
  Claim C1. Let the buffer be valid with logical sequence \<open>xs\<close> and \<^verbatim>\<open>size() < capacity()\<close>,
  let \<open>pos\<close> be a position with \<^verbatim>\<open>pos - begin() = k\<close>, \<open>k \<le> size()\<close>, and let the copy
  construction of \<open>v\<close> not throw. Then \<^verbatim>\<open>insert(pos, v)\<close> returns, the buffer is valid
  again, its logical sequence is \<open>xs\<close> with \<open>v\<close> inserted at index \<open>k\<close>, and the handle
  returned is \<^verbatim>\<open>begin() + k\<close> of the new state, where \<open>v\<close> is. Capacity and block are
  the old ones. The one element constructed is \<open>v\<close>: if \<open>k < size() - k\<close> in the slot
  before the old \<^verbatim>\<open>begin_\<close>, which becomes the new \<^verbatim>\<open>begin_\<close> (a push onto the front),
  and otherwise in the slot after the last element, \<^verbatim>\<open>begin_\<close> staying (a push onto the
  back, also when \<open>k = size() - k\<close>).
\<close>

theorem insert_with_room:
  assumes "valid this w" and "elements this w = map Some xs"
    and "size_cb this < capacity this"
    and "k \<le> length xs" and "it_diff pos (begin_cb this) = of_nat k"
    and "\<not> next_fault w"
  shows "\<exists>this' w'. insert_cb pos v this w = Returns (it_plus (begin_cb this') (of_nat k)) (this', w') \<and>
           valid this' w' \<and> elements this' w' = map Some (take k xs @ v # drop k xs) \<and>
           element this' w' k = Some v \<and>
           capacity_m this' = capacity_m this \<and> data_m this' = data_m this \<and>
           (if k < length xs - k
            then begin_m this' = (begin_m this + capacity_m this - 1) mod capacity_m this \<and>
                 trace w' = trace w @ [Constructed (data_m this) (unat (begin_m this')) v]
            else begin_m this' = begin_m this \<and>
                 trace w' = trace w @ [Constructed (data_m this)
                    ((unat (begin_m this) + length xs) mod unat (capacity_m this)) v])"
proof -
  have r: "rep this w xs" using assms(1,2) by (simp add: rep_iff)
  have room: "size_m this \<noteq> capacity_m this"
    using assms(3) by (auto simp: size_cb_def capacity_def)
  have "it_pos pos - begin_m this = of_nat k"
    using assms(5) by (simp add: it_diff_def begin_cb_def)
  then have pos: "it_pos pos = begin_m this + of_nat k"
    by (simp add: algebra_simps)
  let ?nb = "(begin_m this + capacity_m this - 1) mod capacity_m this"
  let ?this' = "if k < length xs - k then this\<lparr>begin_m := ?nb, size_m := size_m this + 1\<rparr>
                else this\<lparr>size_m := size_m this + 1\<rparr>"
  let ?s = "if k < length xs - k then unat ?nb
            else (unat (begin_m this) + length xs) mod unat (capacity_m this)"
  from insert_in_place [OF r room assms(4) pos, of v] assms(6)
  obtain w' where ins: "insert_cb pos v this w = Returns (at_index ?this' k) (?this', w')"
    and r': "rep ?this' w' (take k xs @ v # drop k xs)"
    and tr: "trace w' = trace w @ [Constructed (data_m this) ?s v]"
    by auto
  from r' have v': "valid ?this' w'"
    and e': "elements ?this' w' = map Some (take k xs @ v # drop k xs)"
    by (simp_all add: rep_iff)
  have len: "k < unat (size_cb ?this')"
    using rep_length [OF r'] assms(4) by (simp add: size_cb_def split: if_splits)
  have "elements ?this' w' ! k = element ?this' w' k"
    unfolding elements_def using len by simp
  moreover have "map Some (take k xs @ v # drop k xs) ! k = Some v"
    using assms(4) by (simp add: nth_append)
  ultimately have el: "element ?this' w' k = Some v" using e' by simp
  show ?thesis
    using ins v' e' el tr
    by (intro exI [of _ ?this'] exI [of _ w']) (simp add: at_index_def split: if_splits)
qed

theorem insert_with_room_witness:
  "valid sample_buffer sample_world \<and>
   elements sample_buffer sample_world = map Some [10, 20, 30] \<and>
   size_cb sample_buffer < capacity sample_buffer \<and>
   (\<exists>this' w'. insert_cb (at_index sample_buffer 1) 99 sample_buffer sample_world
        = Returns (it_plus (begin_cb this') 1) (this', w') \<and>
      valid this' w' \<and> elements this' w' = map Some [10, 99, 20, 30] \<and>
      begin_m this' = 1 \<and> trace w' = [Constructed 1 1 99])"
proof -
  have "it_diff (at_index sample_buffer 1) (begin_cb sample_buffer) = of_nat 1"
    by (simp add: it_diff_def begin_cb_def)
  from insert_with_room [OF sample_valid sample_elements _ _ this sample_no_fault, of 99]
  show ?thesis
    using sample_valid sample_elements by (auto simp: size_cb_def capacity_def)
qed

section \<open>Erasing a range\<close>

text \<open>
  Claim C2. Let the buffer be valid with logical sequence \<open>xs\<close>, and let \<open>first\<close> and
  \<open>last\<close> be positions of it at the distances \<open>f \<le> l \<le> size()\<close> from \<^verbatim>\<open>begin()\<close>. Then
  \<^verbatim>\<open>erase(first, last)\<close> returns, the buffer is valid again, its logical sequence is \<open>xs\<close>
  without the elements of the indices \<open>f..<l\<close> (the others in their order), the capacity
  and the block are the old ones, and the handle returned is \<^verbatim>\<open>begin() + f\<close> of the new
  state.
\<close>

theorem erase_range:
  assumes "valid this w" and "elements this w = map Some xs"
    and "points this first f" and "points this lst l"
    and "f \<le> l" and "l \<le> length xs"
  shows "\<exists>this' w'. erase first lst this w = Returns (it_plus (begin_cb this') (of_nat f)) (this', w') \<and>
           valid this' w' \<and> elements this' w' = map Some (take f xs @ drop l xs) \<and>
           capacity_m this' = capacity_m this \<and> data_m this' = data_m this"
proof -
  have r: "rep this w xs" using assms(1,2) by (simp add: rep_iff)
  from erase_spec [OF r assms(3-6)]
  obtain this' w' where "erase first lst this w = Returns (at_index this' f) (this', w')"
    and "rep this' w' (take f xs @ drop l xs)"
    and "data_m this' = data_m this" "capacity_m this' = capacity_m this"
    by auto
  then show ?thesis
    by (intro exI [of _ this'] exI [of _ w']) (simp add: rep_iff at_index_def)
qed

theorem erase_range_witness:
  "valid sample_buffer sample_world \<and>
   elements sample_buffer sample_world = map Some [10, 20, 30] \<and>
   points sample_buffer (at_index sample_buffer 1) 1 \<and>
   points sample_buffer (at_index sample_buffer 3) 3 \<and>
   (\<exists>this' w'. erase (at_index sample_buffer 1) (at_index sample_buffer 3) sample_buffer sample_world
        = Returns (it_plus (begin_cb this') 1) (this', w') \<and>
      valid this' w' \<and> elements this' w' = map Some [10] \<and> capacity_m this' = 4)"
  using erase_range [OF sample_valid sample_elements points_at_index points_at_index, of 1 3]
    sample_valid sample_elements
  by auto

section \<open>Erasing an empty range\<close>

text \<open>
  Claim C10. For a valid buffer and a position \<open>pos\<close> of it at a distance \<open>k \<le> size()\<close>
  from \<^verbatim>\<open>begin()\<close>, \<^verbatim>\<open>erase(pos, pos)\<close> returns the handle \<^verbatim>\<open>begin() + k\<close> and leaves the
  object (size, capacity, \<^verbatim>\<open>begin_\<close>, block pointer) and the whole world, and so the
  logical sequence, as they were.
\<close>

theorem erase_empty_range:
  assumes "valid this w" and "points this pos k" and "k \<le> unat (size_cb this)"
  shows "erase pos pos this w = Returns (it_plus (begin_cb this) (of_nat k)) (this, w)"
proof -
  from valid_rep [OF assms(1)] obtain xs where r: "rep this w xs" ..
  have "k \<le> length xs" using assms(3) rep_length [OF r] by (simp add: size_cb_def)
  from erase_spec [OF r assms(2) assms(2) order_refl this]
  show ?thesis by (auto simp: at_index_def)
qed

theorem erase_empty_range_witness:
  "valid sample_buffer sample_world \<and> points sample_buffer (at_index sample_buffer 2) 2 \<and>
   erase (at_index sample_buffer 2) (at_index sample_buffer 2) sample_buffer sample_world
     = Returns (it_plus (begin_cb sample_buffer) 2) (sample_buffer, sample_world)"
  using erase_empty_range [OF sample_valid points_at_index, of 2] sample_valid
  by (simp add: size_cb_def)

section \<open>Destruction\<close>

text \<open>
  Claim C7 says that the destructor destroys the elements front to back and then releases
  the block once. The destructor calls \<^verbatim>\<open>clear()\<close>, which pops from the back: on the sample
  buffer 10, 20, 30 the element 30 is destroyed first and 10 last, not the other way
  round.
\<close>

theorem destruction_order_counterexample:
  "map_option trace (result_state (dtor sample_buffer sample_world))
     = Some [Destroyed 1 0 30, Destroyed 1 3 20, Destroyed 1 2 10, Released 1] \<and>
   map_option trace (result_state (dtor sample_buffer sample_world))
     \<noteq> Some [Destroyed 1 2 10, Destroyed 1 3 20, Destroyed 1 0 30, Released 1]"
proof -
  have "rev [0..<3] = [2, 1, 0 :: nat]" by (simp add: upt_rec)
  with dtor_spec [OF sample_rep] show ?thesis
    by (auto simp: result_state_def)
qed

text \<open>
  Claim C7, amended. The destructor of a valid buffer with logical sequence \<open>xs\<close> returns;
  it destroys the elements back to front (the element of logical index \<open>size() - 1\<close>
  first, that of index 0 last), each in its slot, and then releases the block, once, when
  the buffer owns one (a buffer of capacity 0 owns none, and nothing is released). The
  trace grows by exactly these events, and the block is no longer allocated.
\<close>

theorem destruction_order:
  assumes "valid this w" and "elements this w = map Some xs"
  shows "\<exists>w'. dtor this w = Returns () w' \<and>
           trace w' = trace w @
             map (\<lambda>i. Destroyed (data_m this)
                    ((unat (begin_m this) + i) mod unat (capacity_m this)) (xs ! i))
               (rev [0..<length xs]) @
             (if capacity this = 0 then [] else [Released (data_m this)]) \<and>
           (capacity this \<noteq> 0 \<longrightarrow> blocks w' (data_m this) = None)"
proof -
  have r: "rep this w xs" using assms by (simp add: rep_iff)
  show ?thesis
  proof (cases "capacity_m this = 0")
    case True
    with r have "xs = []" by (simp add: rep_def)
    with dtor_spec [OF r] True show ?thesis by (simp add: capacity_def)
  next
    case False
    with dtor_spec [OF r] show ?thesis by (auto simp: capacity_def)
  qed
qed

theorem destruction_order_witness:
  "valid sample_buffer sample_world \<and>
   elements sample_buffer sample_world = map Some [10, 20, 30] \<and>
   (\<exists>w'. dtor sample_buffer sample_world = Returns () w' \<and>
      trace w' = [Destroyed 1 0 30, Destroyed 1 3 20, Destroyed 1 2 10, Released 1] \<and>
      blocks w' 1 = None)"
proof -
  have "rev [0..<3] = [2, 1, 0 :: nat]" by (simp add: upt_rec)
  with destruction_order [OF sample_valid sample_elements] show ?thesis
    using sample_valid sample_elements by (auto simp: capacity_def)
qed

section \<open>Self-assignment\<close>

text \<open>
  Claim C9. The copy assignment of a buffer to itself returns normally and leaves the
  whole machine as it was: the object (size, capacity, \<^verbatim>\<open>begin_\<close>, block pointer), its
  block and with it the logical sequence, and the trace, which records no allocation
  and no release.
\<close>

theorem self_assignment:
  assumes "objects m x = Some this"
  shows "step (Assign x x) m = Returns () m"
  using assms by (simp add: operator_assign_def)

theorem self_assignment_witness:
  "objects sample_machine 0 = Some sample_buffer \<and>
   step (Assign 0 0) sample_machine = Returns () sample_machine"
  using self_assignment [of sample_machine 0 sample_buffer]
  by (simp add: sample_machine_def)

end
